theory Spec2Isabelle
  imports Complex_Main "HOL-Library.AList"
begin

section \<open>Patent2SDG: embedding store, similarity and basic Python data\<close>

text \<open>
  Document ids are the file names of the batch (Python \<open>str\<close>). An embedding is the vector
  returned by the sentence encoder; the model works over the reals, so rounding of the
  32-bit floats of the library is outside of it. The similarity function of scikit-learn
  (\<open>cosine_similarity([v1], [v2])[0][0]\<close>) is library code: it is a parameter \<open>sim\<close> of every
  definition that calls it.
\<close>

type_synonym doc_id = string
type_synonym vec = "real list"
type_synonym similarity = "vec \<Rightarrow> vec \<Rightarrow> real"

datatype error = KeyError string | ValueError string | IndexError

text \<open>
  A Python \<open>dict\<close> is an association list in insertion order; a well-formed one has
  distinct keys. \<open>d[k]\<close> raises \<open>KeyError\<close> on a missing key; \<open>d[k] = v\<close> is
  \<open>AList.update\<close> (an existing key keeps its position, a new one goes last).
\<close>

definition getitem :: "(string \<times> 'v) list \<Rightarrow> string \<Rightarrow> error + 'v" where
  "getitem d k = (case map_of d k of None \<Rightarrow> Inl (KeyError k) | Some v \<Rightarrow> Inr v)"

text \<open>
  A Python \<open>set\<close> is represented by a duplicate-free list of its elements. The code only
  observes membership (\<open><=\<close>), size (\<open>len\<close>) and an enumeration whose order is not
  specified by Python; \<open>set\<close> of the list is the set of members.
\<close>

definition py_set :: "'a list \<Rightarrow> 'a list" where
  "py_set xs = remdups xs"

definition issubset :: "'a list \<Rightarrow> 'a list \<Rightarrow> bool" where
  "issubset a b \<longleftrightarrow> set a \<subseteq> set b"

text \<open>\<open>itertools.combinations(xs, 2)\<close>: all index pairs \<open>i < j\<close> in lexicographic order.\<close>

fun combinations2 :: "'a list \<Rightarrow> ('a \<times> 'a) list" where
  "combinations2 [] = []"
| "combinations2 (x # xs) = map (Pair x) xs @ combinations2 xs"

text \<open>Python \<open>str(n)\<close> for a non-negative integer: its decimal digits.\<close>

definition digit_char :: "nat \<Rightarrow> char" where
  "digit_char d = ''0123456789'' ! d"

fun str_nat :: "nat \<Rightarrow> string" where
  "str_nat n = (if n < 10 then [digit_char n] else str_nat (n div 10) @ [digit_char (n mod 10)])"

declare str_nat.simps [simp del]

text \<open>
  \<open>np.mean(vecs, axis=0)\<close> on a list of vectors: the element-wise mean. NumPy refuses
  rows of different lengths (\<open>ValueError\<close>); the mean of no rows is not a number and is
  an error of the model too.
\<close>

definition np_mean_axis0 :: "vec list \<Rightarrow> error + vec" where
  "np_mean_axis0 vecs =
     (case vecs of
        [] \<Rightarrow> Inl (ValueError ''mean of empty'')
      | v # vs \<Rightarrow>
          if \<forall>w \<in> set vs. length w = length v
          then Inr (map (\<lambda>j. sum_list (map (\<lambda>w. w ! j) vecs) / real (length vecs))
                        [0..<length v])
          else Inl (ValueError ''inhomogeneous shape''))"

section \<open>Opportunity clustering (nodes/opportunity_node.py)\<close>

text \<open>
  \<open>nodes/node.py\<close>, \<open>nodes/sdg_node.py\<close> and the class of \<open>nodes/opportunity_node.py\<close>: the
  base class has the fields \<open>id\<close> (here \<open>node_id\<close>) and \<open>embedding\<close> (initially \<open>None\<close>), the
  subclasses extend it.
\<close>

record Node =
  node_id :: string
  embedding :: "vec option"

record SDGNode = Node +
  name :: string
  description :: string

record OpportunityNode = Node +
  label :: string

text \<open>
  The body of the first loop of \<open>generate_shared_opportunity_nodes\<close>: the state is
  \<open>(groups, used)\<close>, the argument one pair of \<open>combinations(patent_embeddings.items(), 2)\<close>.
\<close>

fun cluster_step ::
  "similarity \<Rightarrow> real \<Rightarrow> (doc_id \<times> vec) \<times> (doc_id \<times> vec) \<Rightarrow>
   doc_id list list \<times> doc_id set \<Rightarrow> doc_id list list \<times> doc_id set" where
  "cluster_step sim threshold ((k1, v1), (k2, v2)) (groups, used) =
     (if sim v1 v2 \<ge> threshold
      then let grp = py_set [k1, k2]
           in ((if \<not> (\<exists>g \<in> set groups. issubset grp g) then groups @ [grp] else groups),
               used \<union> set grp)
      else (groups, used))"

definition cluster_groups ::
  "similarity \<Rightarrow> (doc_id \<times> vec) list \<Rightarrow> real \<Rightarrow> doc_id list list" where
  "cluster_groups sim patent_embeddings threshold =
     fst (fold (cluster_step sim threshold) (combinations2 patent_embeddings) ([], {}))"

text \<open>
  The second loop, over \<open>enumerate(groups, start=1)\<close>: the accumulator is
  \<open>(opportunity_nodes, connections)\<close>.
\<close>

fun lookup_all :: "(string \<times> 'v) list \<Rightarrow> string list \<Rightarrow> error + 'v list" where
  "lookup_all d [] = Inr []"
| "lookup_all d (k # ks) =
     (case getitem d k of
        Inl e \<Rightarrow> Inl e
      | Inr v \<Rightarrow> (case lookup_all d ks of Inl e \<Rightarrow> Inl e | Inr vs \<Rightarrow> Inr (v # vs)))"

fun build_nodes ::
  "(doc_id \<times> vec) list \<Rightarrow> nat \<Rightarrow> doc_id list list \<Rightarrow>
   OpportunityNode list \<times> (string \<times> doc_id list) list \<Rightarrow>
   error + OpportunityNode list \<times> (string \<times> doc_id list) list" where
  "build_nodes patent_embeddings idx [] acc = Inr acc"
| "build_nodes patent_embeddings idx (grp # rest) (opportunity_nodes, connections) =
     (case lookup_all patent_embeddings grp of
        Inl e \<Rightarrow> Inl e
      | Inr vecs \<Rightarrow>
          (case np_mean_axis0 vecs of
             Inl e \<Rightarrow> Inl e
           | Inr center \<Rightarrow>
               let opp_id = ''OPPORTUNITY_'' @ str_nat idx;
                   lbl = ''Shared Opportunity '' @ str_nat idx @ '' ('' @
                         str_nat (length grp) @ '' patents)'';
                   node = \<lparr>node_id = opp_id, embedding = Some center, label = lbl\<rparr>
               in build_nodes patent_embeddings (idx + 1) rest
                    (opportunity_nodes @ [node], AList.update opp_id grp connections)))"

definition generate_shared_opportunity_nodes ::
  "similarity \<Rightarrow> (doc_id \<times> vec) list \<Rightarrow> real \<Rightarrow>
   error + OpportunityNode list \<times> (string \<times> doc_id list) list" where
  "generate_shared_opportunity_nodes sim patent_embeddings threshold =
     build_nodes patent_embeddings 1
       (cluster_groups sim patent_embeddings threshold) ([], [])"

section \<open>The graph of the application (networkx.Graph, graph_builder.py, app.py)\<close>

text \<open>
  An undirected \<open>networkx.Graph\<close>: every node has a dictionary of attributes, every edge a
  weight. \<open>add_node\<close> creates the node or merges the new attributes into the old ones;
  \<open>add_edge\<close> creates missing endpoints and stores the weight under both orientations,
  overwriting the weight of an edge that is already there.
\<close>

record nx_graph =
  node_attrs :: "string \<rightharpoonup> (string \<rightharpoonup> string)"
  adj :: "string \<times> string \<rightharpoonup> real"

definition empty_graph :: nx_graph where
  "empty_graph = \<lparr>node_attrs = Map.empty, adj = Map.empty\<rparr>"

definition add_node :: "nx_graph \<Rightarrow> string \<Rightarrow> (string \<times> string) list \<Rightarrow> nx_graph" where
  "add_node G n attrs =
     G\<lparr>node_attrs := (node_attrs G)(n \<mapsto>
          (case node_attrs G n of None \<Rightarrow> map_of attrs | Some old \<Rightarrow> old ++ map_of attrs))\<rparr>"

definition add_edge :: "nx_graph \<Rightarrow> string \<Rightarrow> string \<Rightarrow> real \<Rightarrow> nx_graph" where
  "add_edge G u v w =
     (let G1 = add_node G u []; G2 = add_node G1 v []
      in G2\<lparr>adj := (adj G2)((u, v) \<mapsto> w, (v, u) \<mapsto> w)\<rparr>)"

definition has_edge :: "nx_graph \<Rightarrow> string \<Rightarrow> string \<Rightarrow> bool" where
  "has_edge G u v \<longleftrightarrow> adj G (u, v) \<noteq> None"

text \<open>\<open>build_sdg_graph\<close>, followed by the loop of \<open>app.py\<close> that tags every goal with its type.\<close>

definition build_sdg_graph :: "SDGNode list \<Rightarrow> nx_graph" where
  "build_sdg_graph sdgs =
     fold (\<lambda>sdg G. add_node G (node_id sdg)
                       [(''label'', name sdg), (''description'', description sdg)])
          sdgs empty_graph"

definition tag_sdgs :: "SDGNode list \<Rightarrow> nx_graph \<Rightarrow> nx_graph" where
  "tag_sdgs sdgs full_G = fold (\<lambda>sdg G. add_node G (node_id sdg) [(''type'', ''sdg'')]) sdgs full_G"

definition patent_node :: "string \<Rightarrow> string" where
  "patent_node filename = ''PATENT_'' @ filename"

text \<open>
  The inner loop \<open>for i in top_indices\<close>: one node update and one edge per selected goal;
  \<open>sdgs[i]\<close> and \<open>sims[i]\<close> raise \<open>IndexError\<close> out of range. The rows appended to
  \<open>batch_table_data\<close> are display data of the results table and are left out.
\<close>

fun add_top_edges ::
  "SDGNode list \<Rightarrow> real list \<Rightarrow> string \<Rightarrow> nat list \<Rightarrow> nx_graph \<Rightarrow> error + nx_graph" where
  "add_top_edges sdgs sims filename [] full_G = Inr full_G"
| "add_top_edges sdgs sims filename (i # top_indices) full_G =
     (if i < length sims \<and> i < length sdgs
      then let sim_score = sims ! i;
               G1 = add_node full_G (patent_node filename)
                      [(''label'', filename), (''type'', ''patent'')];
               G2 = add_edge G1 (patent_node filename) (node_id (sdgs ! i)) sim_score
           in add_top_edges sdgs sims filename top_indices G2
      else Inl IndexError)"

text \<open>
  The library calls of the per-document loop are parameters: \<open>encode\<close> is
  \<open>model.encode\<close>, \<open>sim\<close> the cosine similarity of two vectors and \<open>argsort\<close> is
  \<open>ndarray.argsort\<close> (indices that sort the scores in ascending order).
  \<open>cosine_similarity([emb], sdg_embeddings)\<close> refuses an empty list of goals. The literal
  \<open>5\<close> of \<open>[::-1][:5]\<close> is the parameter \<open>top_k\<close>; the application runs with \<open>top_k = 5\<close>.
\<close>

definition top_indices_of :: "(real list \<Rightarrow> nat list) \<Rightarrow> nat \<Rightarrow> real list \<Rightarrow> nat list" where
  "top_indices_of argsort top_k sims = take top_k (rev (argsort sims))"

definition sdg_similarities :: "similarity \<Rightarrow> vec \<Rightarrow> vec list \<Rightarrow> error + real list" where
  "sdg_similarities sim emb sdg_embeddings =
     (if sdg_embeddings = [] then Inl (ValueError ''cosine_similarity: empty array'')
      else Inr (map (sim emb) sdg_embeddings))"

fun attach_documents ::
  "(string \<Rightarrow> vec) \<Rightarrow> similarity \<Rightarrow> (real list \<Rightarrow> nat list) \<Rightarrow> nat \<Rightarrow> SDGNode list \<Rightarrow>
   (doc_id \<times> string) list \<Rightarrow> (doc_id \<times> vec) list \<times> nx_graph \<Rightarrow>
   error + (doc_id \<times> vec) list \<times> nx_graph" where
  "attach_documents encode sim argsort top_k sdgs [] st = Inr st"
| "attach_documents encode sim argsort top_k sdgs ((filename, text) # text_data)
     (patent_embeddings, full_G) =
     (let emb = encode text;
          patent_embeddings' = AList.update filename emb patent_embeddings
      in case sdg_similarities sim emb (map (\<lambda>sdg. encode (description sdg)) sdgs) of
           Inl e \<Rightarrow> Inl e
         | Inr sims \<Rightarrow>
             (case add_top_edges sdgs sims filename (top_indices_of argsort top_k sims) full_G of
                Inl e \<Rightarrow> Inl e
              | Inr G' \<Rightarrow>
                  attach_documents encode sim argsort top_k sdgs text_data
                    (patent_embeddings', G')))"

text \<open>
  The document-document loop of \<open>app.py\<close>. The literal \<open>0.75\<close> of the comparison
  \<open>sim > 0.75\<close> is the parameter \<open>threshold\<close>; the application runs with \<open>3/4\<close>.
\<close>

fun link_step ::
  "similarity \<Rightarrow> real \<Rightarrow> (doc_id \<times> vec) \<times> (doc_id \<times> vec) \<Rightarrow> nx_graph \<Rightarrow> nx_graph" where
  "link_step sim threshold ((f1, e1), (f2, e2)) full_G =
     (if sim e1 e2 > threshold
      then add_edge full_G (patent_node f1) (patent_node f2) (sim e1 e2)
      else full_G)"

definition link_similar_documents ::
  "similarity \<Rightarrow> real \<Rightarrow> (doc_id \<times> vec) list \<Rightarrow> nx_graph \<Rightarrow> nx_graph" where
  "link_similar_documents sim threshold patent_embeddings full_G =
     fold (link_step sim threshold) (combinations2 patent_embeddings) full_G"

text \<open>
  The graph of the handler after both loops, from the goals and the texts of the batch
  (\<open>top_k = 5\<close>, \<open>threshold = 3/4\<close> in the application).
\<close>

definition document_graph ::
  "(string \<Rightarrow> vec) \<Rightarrow> similarity \<Rightarrow> (real list \<Rightarrow> nat list) \<Rightarrow> nat \<Rightarrow> real \<Rightarrow> SDGNode list \<Rightarrow>
   (doc_id \<times> string) list \<Rightarrow> error + (doc_id \<times> vec) list \<times> nx_graph" where
  "document_graph encode sim argsort top_k threshold sdgs text_data =
     (case attach_documents encode sim argsort top_k sdgs text_data
             ([], tag_sdgs sdgs (build_sdg_graph sdgs)) of
        Inl e \<Rightarrow> Inl e
      | Inr (patent_embeddings, full_G) \<Rightarrow>
          Inr (patent_embeddings, link_similar_documents sim threshold patent_embeddings full_G))"

text \<open>
  The flagship selection (\<open>patents_for_startup\<close>). Python's \<open>max(iterable, key=f)\<close> keeps
  the first element whose key is maximal: a later element replaces the current one only
  when its key is strictly greater. The key of the handler is \<open>len(opp_links[k])\<close>.
\<close>

fun max_loop :: "('a \<Rightarrow> error + nat) \<Rightarrow> 'a list \<Rightarrow> 'a \<Rightarrow> nat \<Rightarrow> error + 'a" where
  "max_loop key [] best best_key = Inr best"
| "max_loop key (x # xs) best best_key =
     (case key x of
        Inl e \<Rightarrow> Inl e
      | Inr v \<Rightarrow> if v > best_key then max_loop key xs x v else max_loop key xs best best_key)"

definition py_max :: "('a \<Rightarrow> error + nat) \<Rightarrow> 'a list \<Rightarrow> error + 'a" where
  "py_max key xs =
     (case xs of
        [] \<Rightarrow> Inl (ValueError ''max() arg is an empty sequence'')
      | x # rest \<Rightarrow> (case key x of Inl e \<Rightarrow> Inl e | Inr v \<Rightarrow> max_loop key rest x v))"

definition len_of :: "(string \<times> doc_id list) list \<Rightarrow> string \<Rightarrow> error + nat" where
  "len_of opp_links k = (case getitem opp_links k of Inl e \<Rightarrow> Inl e | Inr g \<Rightarrow> Inr (length g))"

definition patents_for_startup ::
  "(string \<times> doc_id list) list \<Rightarrow> (doc_id \<times> vec) list \<Rightarrow> error + doc_id list" where
  "patents_for_startup opp_links patent_embeddings =
     (if opp_links \<noteq> []
      then (case py_max (len_of opp_links) (map fst opp_links) of
              Inl e \<Rightarrow> Inl e
            | Inr k \<Rightarrow> getitem opp_links k)
      else Inr (map fst patent_embeddings))"

text \<open>\<open>sdg_list.py\<close>: the seventeen goals.\<close>

definition sdgs :: "SDGNode list" where
  "sdgs =
   [\<lparr>node_id = ''SDG1'', embedding = None, name = ''No Poverty'',
      description = ''End poverty in all its forms everywhere.''\<rparr>,
    \<lparr>node_id = ''SDG2'', embedding = None, name = ''Zero Hunger'',
      description = ''End hunger, achieve food security and improved nutrition and promote sustainable agriculture.''\<rparr>,
    \<lparr>node_id = ''SDG3'', embedding = None, name = ''Good Health and Well-being'',
      description = ''Ensure healthy lives and promote well-being for all at all ages.''\<rparr>,
    \<lparr>node_id = ''SDG4'', embedding = None, name = ''Quality Education'',
      description = ''Ensure inclusive and equitable quality education and promote lifelong learning opportunities for all.''\<rparr>,
    \<lparr>node_id = ''SDG5'', embedding = None, name = ''Gender Equality'',
      description = ''Achieve gender equality and empower all women and girls.''\<rparr>,
    \<lparr>node_id = ''SDG6'', embedding = None, name = ''Clean Water and Sanitation'',
      description = ''Ensure availability and sustainable management of water and sanitation for all.''\<rparr>,
    \<lparr>node_id = ''SDG7'', embedding = None, name = ''Affordable and Clean Energy'',
      description = ''Ensure access to affordable, reliable, sustainable and modern energy for all.''\<rparr>,
    \<lparr>node_id = ''SDG8'', embedding = None, name = ''Decent Work and Economic Growth'',
      description = ''Promote sustained, inclusive and sustainable economic growth, full and productive employment and decent work for all.''\<rparr>,
    \<lparr>node_id = ''SDG9'', embedding = None, name = ''Industry, Innovation and Infrastructure'',
      description = ''Build resilient infrastructure, promote inclusive and sustainable industrialization and foster innovation.''\<rparr>,
    \<lparr>node_id = ''SDG10'', embedding = None, name = ''Reduced Inequalities'',
      description = ''Reduce inequality within and among countries.''\<rparr>,
    \<lparr>node_id = ''SDG11'', embedding = None, name = ''Sustainable Cities and Communities'',
      description = ''Make cities and human settlements inclusive, safe, resilient and sustainable.''\<rparr>,
    \<lparr>node_id = ''SDG12'', embedding = None, name = ''Responsible Consumption and Production'',
      description = ''Ensure sustainable consumption and production patterns.''\<rparr>,
    \<lparr>node_id = ''SDG13'', embedding = None, name = ''Climate Action'',
      description = ''Take urgent action to combat climate change and its impacts.''\<rparr>,
    \<lparr>node_id = ''SDG14'', embedding = None, name = ''Life Below Water'',
      description = ''Conserve and sustainably use the oceans, seas and marine resources for sustainable development.''\<rparr>,
    \<lparr>node_id = ''SDG15'', embedding = None, name = ''Life on Land'',
      description = ''Protect, restore and promote sustainable use of terrestrial ecosystems, sustainably manage forests, combat desertification, and halt and reverse land degradation and halt biodiversity loss.''\<rparr>,
    \<lparr>node_id = ''SDG16'', embedding = None, name = ''Peace, Justice and Strong Institutions'',
      description = ''Promote peaceful and inclusive societies for sustainable development, provide access to justice for all and build effective, accountable and inclusive institutions at all levels.''\<rparr>,
    \<lparr>node_id = ''SDG17'', embedding = None, name = ''Partnerships for the Goals'',
      description = ''Strengthen the means of implementation and revitalize the global partnership for sustainable development.''\<rparr>]"

section \<open>Narrative synthesis (utils/narrative_generator.py)\<close>

text \<open>
  The regular expressions of the module, by name; the engine that applies them is a
  parameter.
  \<^item> \<open>InidTag\<close>: two digits in parentheses;
  \<^item> \<open>EpNumber\<close>: a word made of EP, digits, an optional capital letter and digits;
  \<^item> \<open>OfficeCode\<close>: two or more capital letters followed by four or more digits;
  \<^item> \<open>Boilerplate\<close>: one of the words Patent, Application, Filed, Bulletin, Gazette,
    Number, Date, Publication (any case) up to the next full stop or line break;
  \<^item> \<open>CamelJoin\<close>: the empty match between a lower-case and an upper-case letter;
  \<^item> \<open>Whitespace\<close>: a run of white space;
  \<^item> \<open>SentenceEnd\<close>: white space that follows one of . ! ?
\<close>

datatype regex = InidTag | EpNumber | OfficeCode | Boilerplate | CamelJoin | Whitespace
  | SentenceEnd

text \<open>
  The library functions of the module: \<open>re.sub\<close>, \<open>re.split\<close>, \<open>random.choice\<close>,
  \<open>str.title\<close>, the Unicode-aware predicates \<open>str.isdigit\<close> (of one character) and
  \<open>str.isalpha\<close> (of a string), and the two stages of \<open>TfidfVectorizer(stop_words="english",
  max_features=100)\<close>: \<open>analyze\<close> turns a text into its tokens (lower case, at least two
  characters, English stop words removed), \<open>weigh\<close> turns the tokens of the texts into the
  feature names paired with their summed TF-IDF scores.
\<close>

record library =
  re_sub :: "regex \<Rightarrow> string \<Rightarrow> string \<Rightarrow> string"
  re_split :: "regex \<Rightarrow> string \<Rightarrow> string list"
  choice :: "string list \<Rightarrow> string"
  title :: "string \<Rightarrow> string"
  analyze :: "string \<Rightarrow> string list"
  weigh :: "string list list \<Rightarrow> (string \<times> real) list"
  isdigit :: "char \<Rightarrow> bool"
  isalpha :: "string \<Rightarrow> bool"

definition newline :: string where
  "newline = [CHR 0x0A]"

definition isspace :: "char \<Rightarrow> bool" where
  "isspace c \<longleftrightarrow> c \<in> set [CHR '' '', CHR 0x09, CHR 0x0A, CHR 0x0B, CHR 0x0C, CHR 0x0D]"

definition strip :: "string \<Rightarrow> string" where
  "strip s = rev (dropWhile isspace (rev (dropWhile isspace s)))"

fun join :: "string \<Rightarrow> string list \<Rightarrow> string" where
  "join sep [] = []"
| "join sep [x] = x"
| "join sep (x # y # ys) = x @ sep @ join sep (y # ys)"

definition clean_text :: "library \<Rightarrow> string \<Rightarrow> string" where
  "clean_text lib text =
     (let t1 = re_sub lib InidTag [] text;
          t2 = re_sub lib EpNumber [] t1;
          t3 = re_sub lib OfficeCode [] t2;
          t4 = re_sub lib Boilerplate [] t3;
          t5 = re_sub lib CamelJoin '' '' t4;
          t6 = map (\<lambda>c. if c = CHR 0x0A then CHR '' '' else c) t5
      in strip (re_sub lib Whitespace '' '' t6))"

definition summarize_text :: "library \<Rightarrow> string \<Rightarrow> nat \<Rightarrow> string" where
  "summarize_text lib text max_sentences =
     (let sentences = re_split lib SentenceEnd text;
          good_sentences = filter (\<lambda>s. length s > 40 \<and> \<not> (\<exists>c \<in> set s. isdigit lib c)) sentences
      in if good_sentences \<noteq> [] then join '' '' (take max_sentences good_sentences)
         else take 300 text)"

text \<open>
  \<open>TfidfVectorizer.fit_transform\<close> followed by \<open>get_feature_names_out\<close> and the column
  sums: scikit-learn raises \<open>ValueError\<close> (empty vocabulary) when the texts yield no token
  at all, which is the case for an empty list of texts.
\<close>

definition fit_transform :: "library \<Rightarrow> string list \<Rightarrow> error + (string \<times> real) list" where
  "fit_transform lib texts =
     (let docs = map (analyze lib) texts
      in if concat docs = []
         then Inl (ValueError ''empty vocabulary; perhaps the documents only contain stop words'')
         else Inr (weigh lib docs))"

text \<open>\<open>sorted(..., key=..., reverse=True)\<close>: descending, equal keys in their original order.\<close>

definition sorted_reverse :: "('a \<Rightarrow> real) \<Rightarrow> 'a list \<Rightarrow> 'a list" where
  "sorted_reverse key xs = rev (sort_key key (rev xs))"

definition stopwords :: "string list" where
  "stopwords =
     [''development'', ''technology'', ''system'', ''method'', ''device'',
      ''approach'', ''solution'', ''innovation'', ''data'', ''information'',
      ''application'', ''product'', ''field'', ''based'', ''process'', ''unit'']"

definition extract_keywords :: "library \<Rightarrow> string list \<Rightarrow> nat \<Rightarrow> error + string list" where
  "extract_keywords lib texts max_keywords =
     (case fit_transform lib texts of
        Inl e \<Rightarrow> Inl e
      | Inr scored \<Rightarrow>
          let keywords = sorted_reverse snd scored;
              cleaned = filter (\<lambda>kw. kw \<notin> set stopwords \<and> length kw > 3 \<and> isalpha lib kw)
                          (map fst keywords)
          in Inr (take max_keywords cleaned))"

definition compose_description :: "library \<Rightarrow> string \<Rightarrow> string list \<Rightarrow> string" where
  "compose_description lib summary keywords =
     (if keywords = []
      then ''This innovation addresses sustainability challenges through a novel approach. Summary: ''
           @ summary
      else let kw1 = keywords ! 0;
               kw2 = (if length keywords > 1 then keywords ! 1 else ''technology'');
               kw3 = (if length keywords > 2 then keywords ! 2 else ''impact'');
               templates =
                 [''This solution targets '' @ kw1 @ '' and '' @ kw2 @
                  '', enhancing real-world performance and impact. It improves '' @ kw3 @
                  '' and aligns with SDGs. Summary: '' @ summary,
                  ''A novel advancement in '' @ kw1 @ '' and '' @ kw2 @
                  '', this innovation offers practical benefits for '' @ kw3 @
                  ''. It supports sustainability goals through technology integration. Summary: ''
                  @ summary,
                  ''Focused on '' @ kw1 @ '' applications combined with '' @ kw2 @
                  '', the system introduces improvements in '' @ kw3 @
                  ''. This contributes to the Sustainable Development Goals. Summary: '' @ summary,
                  ''This work combines '' @ kw1 @ '' and '' @ kw2 @
                  '' to address emerging challenges in '' @ kw3 @
                  ''. It supports innovation aligned with global SDG priorities. Summary: ''
                  @ summary]
           in choice lib templates)"

text \<open>
  \<open>describe_opportunity\<close>: \<open>opportunity_fields\<close> computes the two fields \<open>name\<close> and
  \<open>description\<close>, \<open>opportunity_block\<close> is the f-string that formats them.
\<close>

record narrative =
  opp_name :: string
  opp_description :: string

definition opportunity_block :: "narrative \<Rightarrow> string" where
  "opportunity_block n =
     ''---'' @ newline @ ''Name: '' @ opp_name n @ newline @
     ''Description: '' @ opp_description n @ newline @ ''---''"

definition opportunity_fields :: "library \<Rightarrow> string list \<Rightarrow> error + narrative" where
  "opportunity_fields lib patent_texts =
     (let cleaned = map (clean_text lib) patent_texts;
          combined = join '' '' cleaned;
          summary = summarize_text lib combined 3
      in case extract_keywords lib cleaned 5 of
           Inl e \<Rightarrow> Inl e
         | Inr keywords \<Rightarrow>
             let nm = (if keywords \<noteq> [] then join '' + '' (map (title lib) (take 2 keywords))
                       else ''Sustainable Opportunity'');
                 descr = compose_description lib summary keywords
             in Inr \<lparr>opp_name = nm, opp_description = descr\<rparr>)"

definition describe_opportunity :: "library \<Rightarrow> string list \<Rightarrow> error + string" where
  "describe_opportunity lib patent_texts =
     (case opportunity_fields lib patent_texts of
        Inl e \<Rightarrow> Inl e
      | Inr n \<Rightarrow> Inr (opportunity_block n))"

section \<open>Vocabulary of the proofs\<close>

text \<open>
  The clustering loop seen from outside: \<open>pair_ids\<close> is the group a pair of entries forms,
  \<open>clears\<close> says that its similarity reaches the threshold; \<open>opp_key\<close>, \<open>opp_label\<close> and
  \<open>opp_node\<close> are the id, the label and the node that the second loop builds at index
  \<open>idx\<close>; \<open>size_of\<close> is the key of the flagship selection as a plain number.
\<close>

definition pair_ids :: "(doc_id \<times> vec) \<times> (doc_id \<times> vec) \<Rightarrow> doc_id list" where
  "pair_ids p = [fst (fst p), fst (snd p)]"

definition clears :: "similarity \<Rightarrow> real \<Rightarrow> (doc_id \<times> vec) \<times> (doc_id \<times> vec) \<Rightarrow> bool" where
  "clears sim threshold p \<longleftrightarrow> sim (snd (fst p)) (snd (snd p)) \<ge> threshold"

definition opp_key :: "nat \<Rightarrow> string" where
  "opp_key idx = ''OPPORTUNITY_'' @ str_nat idx"

definition opp_label :: "nat \<Rightarrow> doc_id list \<Rightarrow> string" where
  "opp_label idx g = ''Shared Opportunity '' @ str_nat idx @ '' ('' @
                         str_nat (length g) @ '' patents)''"

definition opp_node :: "(nat \<times> doc_id list) \<times> vec \<Rightarrow> OpportunityNode" where
  "opp_node x = \<lparr>node_id = opp_key (fst (fst x)), embedding = Some (snd x),
                  label = opp_label (fst (fst x)) (snd (fst x))\<rparr>"

definition size_of :: "(string \<times> doc_id list) list \<Rightarrow> string \<Rightarrow> nat" where
  "size_of opp_links k = (case map_of opp_links k of None \<Rightarrow> 0 | Some g \<Rightarrow> length g)"

text \<open>
  The graph loops seen from outside: \<open>link_edge\<close> and \<open>link_edge_rev\<close> are the two
  orientations of the edge of a pair of documents; \<open>doc_sims\<close> are the scores of one text
  against the goals, \<open>doc_edges\<close> the goal ids selected for it with their weights,
  \<open>doc_adj\<close> and \<open>attach_adj\<close> the effect of one document, and of the whole batch, on
  the edge map. \<open>argsort_ok\<close> is the contract of \<open>ndarray.argsort\<close>: a permutation of the
  indices that lists the scores in ascending order. \<open>result_graph\<close> reads the graph out
  of a result of the handler.
\<close>

definition link_edge :: "(doc_id \<times> vec) \<times> (doc_id \<times> vec) \<Rightarrow> string \<times> string" where
  "link_edge p = (patent_node (fst (fst p)), patent_node (fst (snd p)))"

definition link_edge_rev :: "(doc_id \<times> vec) \<times> (doc_id \<times> vec) \<Rightarrow> string \<times> string" where
  "link_edge_rev p = (patent_node (fst (snd p)), patent_node (fst (fst p)))"

definition top_edges :: "SDGNode list \<Rightarrow> real list \<Rightarrow> nat list \<Rightarrow> (string \<times> real) list" where
  "top_edges goals sims tops = map (\<lambda>i. (node_id (goals ! i), sims ! i)) tops"

definition doc_sims :: "(string \<Rightarrow> vec) \<Rightarrow> similarity \<Rightarrow> SDGNode list \<Rightarrow> string \<Rightarrow> real list" where
  "doc_sims encode sim goals text = map (\<lambda>s. sim (encode text) (encode (description s))) goals"

definition doc_edges ::
  "(string \<Rightarrow> vec) \<Rightarrow> similarity \<Rightarrow> (real list \<Rightarrow> nat list) \<Rightarrow> nat \<Rightarrow> SDGNode list \<Rightarrow> string \<Rightarrow>
   (string \<times> real) list" where
  "doc_edges encode sim argsort top_k goals text =
     top_edges goals (doc_sims encode sim goals text)
       (top_indices_of argsort top_k (doc_sims encode sim goals text))"

definition doc_adj ::
  "(string \<times> real) list \<Rightarrow> string \<Rightarrow> (string \<times> string \<rightharpoonup> real) \<Rightarrow> (string \<times> string \<rightharpoonup> real)" where
  "doc_adj edges f A =
     (\<lambda>e. if fst e = patent_node f \<and> snd e \<in> fst ` set edges then map_of edges (snd e)
          else if snd e = patent_node f \<and> fst e \<in> fst ` set edges then map_of edges (fst e)
          else A e)"

fun attach_adj ::
  "(string \<Rightarrow> vec) \<Rightarrow> similarity \<Rightarrow> (real list \<Rightarrow> nat list) \<Rightarrow> nat \<Rightarrow> SDGNode list \<Rightarrow>
   (doc_id \<times> string) list \<Rightarrow> (string \<times> string \<rightharpoonup> real) \<Rightarrow> (string \<times> string \<rightharpoonup> real)" where
  "attach_adj encode sim argsort top_k goals [] A = A"
| "attach_adj encode sim argsort top_k goals ((f, t) # td) A =
     attach_adj encode sim argsort top_k goals td
       (doc_adj (doc_edges encode sim argsort top_k goals t) f A)"

definition argsort_ok :: "(real list \<Rightarrow> nat list) \<Rightarrow> bool" where
  "argsort_ok argsort \<longleftrightarrow>
     (\<forall>xs. distinct (argsort xs) \<and> set (argsort xs) = {0..<length xs} \<and>
           sorted (map (\<lambda>i. xs ! i) (argsort xs)))"

definition result_graph :: "error + (doc_id \<times> vec) list \<times> nx_graph \<Rightarrow> nx_graph" where
  "result_graph r = (case r of Inl e \<Rightarrow> empty_graph | Inr (patent_embeddings, full_G) \<Rightarrow> full_G)"

section \<open>Example inputs\<close>

text \<open>
  Instances of the library parameters for the examples: \<open>inner_product\<close> is a symmetric
  similarity, \<open>cosine\<close> is the cosine similarity over the reals (the inner product
  divided by the product of the norms, the value the application computes),
  \<open>stable_argsort\<close> sorts the indices with a stable sort and \<open>parity_encode\<close> sends a
  text to one of two unit vectors.
\<close>

definition inner_product :: "vec \<Rightarrow> vec \<Rightarrow> real" where
  "inner_product x y = sum_list (map2 (*) x y)"

definition cosine :: similarity where
  "cosine x y = inner_product x y / (sqrt (inner_product x x) * sqrt (inner_product y y))"

definition stable_argsort :: "real list \<Rightarrow> nat list" where
  "stable_argsort xs = sort_key (\<lambda>i. xs ! i) [0..<length xs]"

definition parity_encode :: "string \<Rightarrow> vec" where
  "parity_encode text = (if even (length text) then [1, 0] else [3/5, 4/5])"

text \<open>Batches, membership maps and texts of the examples.\<close>

definition abc_batch :: "(doc_id \<times> vec) list" where
  "abc_batch = [(''A'', [1, 0]), (''B'', [2/5, 2/5]), (''C'', [1/10, 9/10])]"

definition cba_batch :: "(doc_id \<times> vec) list" where
  "cba_batch = [(''C'', [1/10, 9/10]), (''B'', [2/5, 2/5]), (''A'', [1, 0])]"

definition abc_nodes :: "OpportunityNode list" where
  "abc_nodes =
     [\<lparr>node_id = ''OPPORTUNITY_1'', embedding = Some [7/10, 1/5],
       label = ''Shared Opportunity 1 (2 patents)''\<rparr>,
      \<lparr>node_id = ''OPPORTUNITY_2'', embedding = Some [1/4, 13/20],
       label = ''Shared Opportunity 2 (2 patents)''\<rparr>]"

definition abc_connections :: "(string \<times> doc_id list) list" where
  "abc_connections = [(''OPPORTUNITY_1'', [''A'', ''B'']), (''OPPORTUNITY_2'', [''B'', ''C''])]"

definition tie_links :: "(string \<times> doc_id list) list" where
  "tie_links = [(''OPPORTUNITY_1'', [''A'', ''B'']), (''OPPORTUNITY_2'', [''B'', ''C'', ''D'']),
                (''OPPORTUNITY_3'', [''C'', ''D'', ''E''])]"

definition edge_batch :: "(doc_id \<times> vec) list" where
  "edge_batch = [(''A'', [1, 0, 0, 0, 0]), (''B'', [3/4, 1/2, 1/4, 1/4, 1/4])]"

definition six_goals :: "SDGNode list" where
  "six_goals = take 6 sdgs"

definition three_texts :: "(doc_id \<times> string) list" where
  "three_texts = [(''A'', ''solar panel''), (''B'', ''wind turbine''), (''C'', ''tidal power'')]"

definition tied_texts :: "(doc_id \<times> string) list" where
  "tied_texts = [(''A'', ''text'')]"

section \<open>Properties of the clustering engine\<close>

lemma combinations2_members:
  "(a, b) \<in> set (combinations2 xs) \<Longrightarrow> a \<in> set xs \<and> b \<in> set xs"
  by (induction xs) auto

lemma combinations2_keys_differ:
  "distinct (map f xs) \<Longrightarrow> (a, b) \<in> set (combinations2 xs) \<Longrightarrow> f a \<noteq> f b"
proof (induction xs)
  case Nil
  then show ?case by simp
next
  case (Cons x xs)
  from Cons.prems(2) consider "a = x" "b \<in> set xs" | "(a, b) \<in> set (combinations2 xs)"
    by auto
  then show ?case
  proof cases
    case 1
    with Cons.prems(1) show ?thesis by auto
  next
    case 2
    with Cons show ?thesis by simp
  qed
qed

lemma combinations2_cover:
  "a \<in> set xs \<Longrightarrow> b \<in> set xs \<Longrightarrow> a \<noteq> b \<Longrightarrow>
   (a, b) \<in> set (combinations2 xs) \<or> (b, a) \<in> set (combinations2 xs)"
  by (induction xs) auto

lemma combinations2_pair_sets_distinct:
  "distinct (map fst xs) \<Longrightarrow> distinct (map (\<lambda>p. set (pair_ids p)) (combinations2 xs))"
proof (induction xs)
  case Nil
  then show ?case by simp
next
  case (Cons x xs)
  have fresh: "fst x \<notin> fst ` set xs" and dxs: "distinct (map fst xs)"
    using Cons.prems by auto
  have d1: "distinct (map (\<lambda>p. set (pair_ids p)) (map (Pair x) xs))"
  proof -
    have "inj_on (\<lambda>y. {fst x, fst y}) (set xs)"
    proof (rule inj_onI)
      fix y z assume y: "y \<in> set xs" and z: "z \<in> set xs" and e: "{fst x, fst y} = {fst x, fst z}"
      from e have "fst y = fst z" by (auto simp: doubleton_eq_iff)
      with dxs y z show "y = z" by (meson distinct_map inj_onD)
    qed
    moreover have "distinct xs" using dxs by (simp add: distinct_map)
    ultimately show ?thesis
      by (simp add: distinct_map pair_ids_def comp_def)
  qed
  have d2: "distinct (map (\<lambda>p. set (pair_ids p)) (combinations2 xs))"
    using Cons.IH dxs by simp
  have d3: "set (map (\<lambda>p. set (pair_ids p)) (map (Pair x) xs)) \<inter>
            set (map (\<lambda>p. set (pair_ids p)) (combinations2 xs)) = {}"
  proof -
    { fix y a b assume "y \<in> set xs" "(a, b) \<in> set (combinations2 xs)"
        "{fst x, fst y} = {fst a, fst b}"
      then have "fst x = fst a \<or> fst x = fst b" by (auto simp: doubleton_eq_iff)
      moreover have "a \<in> set xs \<and> b \<in> set xs"
        using \<open>(a, b) \<in> set (combinations2 xs)\<close> by (rule combinations2_members)
      ultimately have False using fresh by force }
    then show ?thesis by (auto simp: pair_ids_def)
  qed
  show ?case using d1 d2 d3 by simp
qed

lemma fold_cluster_step:
  assumes "\<forall>p \<in> set ps. fst (fst p) \<noteq> fst (snd p)"
    and "distinct (map (\<lambda>p. set (pair_ids p)) ps)"
    and "\<forall>g \<in> set gs. card (set g) = 2"
    and "set ` set gs \<inter> (\<lambda>p. set (pair_ids p)) ` set ps = {}"
  shows "fst (fold (cluster_step sim threshold) ps (gs, u)) =
         gs @ map pair_ids (filter (clears sim threshold) ps)"
  using assms
proof (induction ps arbitrary: gs u)
  case Nil
  then show ?case by simp
next
  case (Cons p ps)
  obtain k1 v1 k2 v2 where p: "p = ((k1, v1), (k2, v2))" by (metis prod.collapse)
  have ne: "k1 \<noteq> k2" using Cons.prems(1) p by simp
  have notin: "{k1, k2} \<notin> set ` set gs" using Cons.prems(4) p by (auto simp: pair_ids_def)
  have nosub: "\<not> (\<exists>g \<in> set gs. issubset (py_set [k1, k2]) g)"
  proof
    assume "\<exists>g \<in> set gs. issubset (py_set [k1, k2]) g"
    then obtain g where g: "g \<in> set gs" and sub: "{k1, k2} \<subseteq> set g"
      using ne by (auto simp: issubset_def py_set_def)
    have "card (set g) = 2" using Cons.prems(3) g by simp
    moreover have "card {k1, k2} = 2" using ne by simp
    ultimately have "{k1, k2} = set g"
      using sub by (metis card_subset_eq List.finite_set)
    with g notin show False by auto
  qed
  show ?case
  proof (cases "clears sim threshold p")
    case False
    then have "cluster_step sim threshold p (gs, u) = (gs, u)"
      by (simp add: p clears_def)
    moreover have "fst (fold (cluster_step sim threshold) ps (gs, u)) =
         gs @ map pair_ids (filter (clears sim threshold) ps)"
      using Cons.prems by (intro Cons.IH) auto
    ultimately show ?thesis using False by simp
  next
    case True
    let ?gs = "gs @ [[k1, k2]]"
    have step: "cluster_step sim threshold p (gs, u) = (?gs, u \<union> {k1, k2})"
      using True nosub ne by (simp add: p clears_def py_set_def Let_def)
    have a3: "\<forall>g \<in> set ?gs. card (set g) = 2" using Cons.prems(3) ne by auto
    have a4: "set ` set ?gs \<inter> (\<lambda>p. set (pair_ids p)) ` set ps = {}"
      using Cons.prems(2,4) p by (auto simp: pair_ids_def)
    have "fst (fold (cluster_step sim threshold) ps (?gs, u \<union> {k1, k2})) =
         ?gs @ map pair_ids (filter (clears sim threshold) ps)"
      using Cons.prems(1,2) a3 a4 by (intro Cons.IH) auto
    then show ?thesis using True step by (simp add: p pair_ids_def)
  qed
qed

lemma cluster_groups_eq:
  assumes "distinct (map fst embs)"
  shows "cluster_groups sim embs threshold =
         map pair_ids (filter (clears sim threshold) (combinations2 embs))"
proof -
  have "\<forall>p \<in> set (combinations2 embs). fst (fst p) \<noteq> fst (snd p)"
    using combinations2_keys_differ [OF assms] by auto
  then show ?thesis
    unfolding cluster_groups_def
    using fold_cluster_step [of "combinations2 embs" "[]" sim threshold "{}"]
      combinations2_pair_sets_distinct [OF assms]
    by simp
qed

lemma digit_char_code: "d < 10 \<Longrightarrow> of_char (digit_char d) = 48 + d"
  unfolding digit_char_def by (auto simp: less_Suc_eq numeral_eq_Suc)

lemma digit_char_inj: "d < 10 \<Longrightarrow> e < 10 \<Longrightarrow> digit_char d = digit_char e \<Longrightarrow> d = e"
  by (metis digit_char_code add_left_cancel)

lemma str_nat_nonempty: "str_nat n \<noteq> []"
  by (subst str_nat.simps) simp

lemma str_nat_inj: "str_nat m = str_nat n \<Longrightarrow> m = n"
proof (induction m arbitrary: n rule: str_nat.induct)
  case (1 m)
  show ?case
  proof (cases "m < 10")
    case True
    then have m: "str_nat m = [digit_char m]" by (subst str_nat.simps) simp
    show ?thesis
    proof (cases "n < 10")
      case True
      then have "str_nat n = [digit_char n]" by (subst str_nat.simps) simp
      with m "1.prems" \<open>m < 10\<close> True show ?thesis by (simp add: digit_char_inj)
    next
      case False
      then have "str_nat n = str_nat (n div 10) @ [digit_char (n mod 10)]"
        by (subst str_nat.simps) simp
      with m "1.prems" str_nat_nonempty [of "n div 10"] show ?thesis by simp
    qed
  next
    case False
    then have m: "str_nat m = str_nat (m div 10) @ [digit_char (m mod 10)]"
      by (subst str_nat.simps) simp
    show ?thesis
    proof (cases "n < 10")
      case True
      then have "str_nat n = [digit_char n]" by (subst str_nat.simps) simp
      with m "1.prems" str_nat_nonempty [of "m div 10"] show ?thesis by simp
    next
      case nf: False
      then have "str_nat n = str_nat (n div 10) @ [digit_char (n mod 10)]"
        by (subst str_nat.simps) simp
      with m "1.prems" have e: "str_nat (m div 10) = str_nat (n div 10)"
        and d: "digit_char (m mod 10) = digit_char (n mod 10)" by simp_all
      from "1.IH" [OF False e] have "m div 10 = n div 10" .
      moreover from d have "m mod 10 = n mod 10" by (simp add: digit_char_inj)
      ultimately show ?thesis by (metis div_mult_mod_eq)
    qed
  qed
qed


lemma opp_key_inj: "opp_key i = opp_key j \<Longrightarrow> i = j"
  by (simp add: opp_key_def str_nat_inj)

lemma update_fresh: "k \<notin> fst ` set al \<Longrightarrow> AList.update k v al = al @ [(k, v)]"
  by (induction al) auto

lemma build_nodes_connections:
  assumes "build_nodes embs idx gs (ns, cs) = Inr (ns', cs')"
    and "\<forall>k \<in> fst ` set cs. \<exists>j<idx. k = opp_key j"
  shows "cs' = cs @ map (\<lambda>(i, g). (opp_key i, g)) (List.enumerate idx gs) \<and>
         map node_id ns' = map node_id ns @ map (\<lambda>(i, g). opp_key i) (List.enumerate idx gs)"
  using assms
proof (induction gs arbitrary: idx ns cs)
  case Nil
  then show ?case by simp
next
  case (Cons g gs)
  from Cons.prems(1) obtain vecs center where
    rec: "build_nodes embs (idx + 1) gs
            (ns @ [\<lparr>node_id = opp_key idx, embedding = Some center,
                    label = ''Shared Opportunity '' @ str_nat idx @ '' ('' @
                            str_nat (length g) @ '' patents)''\<rparr>],
             AList.update (opp_key idx) g cs) = Inr (ns', cs')"
    by (auto simp: Let_def opp_key_def split: sum.splits)
  have fresh: "opp_key idx \<notin> fst ` set cs"
  proof
    assume "opp_key idx \<in> fst ` set cs"
    with Cons.prems(2) obtain j where "j < idx" "opp_key idx = opp_key j" by blast
    then show False using opp_key_inj by blast
  qed
  then have upd: "AList.update (opp_key idx) g cs = cs @ [(opp_key idx, g)]"
    by (rule update_fresh)
  have keys: "\<forall>k \<in> fst ` set (cs @ [(opp_key idx, g)]). \<exists>j<idx + 1. k = opp_key j"
    using Cons.prems(2) by (auto intro: less_SucI)
  from Cons.IH [OF rec [unfolded upd] keys]
  show ?case by simp
qed

lemma generate_connections:
  assumes "generate_shared_opportunity_nodes sim embs threshold = Inr (nodes, conns)"
  shows "conns = map (\<lambda>(i, g). (opp_key i, g))
                   (List.enumerate 1 (cluster_groups sim embs threshold))"
    and "map node_id nodes = map (\<lambda>(i, g). opp_key i)
                   (List.enumerate 1 (cluster_groups sim embs threshold))"
  using build_nodes_connections [OF assms [unfolded generate_shared_opportunity_nodes_def]]
  by simp_all

lemma generate_connections_groups:
  assumes "generate_shared_opportunity_nodes sim embs threshold = Inr (nodes, conns)"
  shows "map snd conns = cluster_groups sim embs threshold"
proof -
  have "map snd conns = map snd (List.enumerate 1 (cluster_groups sim embs threshold))"
    unfolding generate_connections(1) [OF assms] by (simp add: case_prod_beta comp_def)
  then show ?thesis by simp
qed

lemma generate_connections_nth:
  assumes "generate_shared_opportunity_nodes sim embs threshold = Inr (nodes, conns)"
  shows "length conns = length (cluster_groups sim embs threshold)"
    and "i < length conns \<Longrightarrow> conns ! i = (opp_key (i + 1), cluster_groups sim embs threshold ! i)"
  unfolding generate_connections(1) [OF assms] by (simp_all add: nth_enumerate_eq)

lemma cluster_groups_pairs:
  assumes "distinct (map fst embs)" and "g \<in> set (cluster_groups sim embs threshold)"
  shows "\<exists>k1 v1 k2 v2. g = [k1, k2] \<and> k1 \<noteq> k2 \<and> (k1, v1) \<in> set embs \<and> (k2, v2) \<in> set embs \<and>
           sim v1 v2 \<ge> threshold"
proof -
  from assms(2) have "g \<in> pair_ids ` set (filter (clears sim threshold) (combinations2 embs))"
    by (simp add: cluster_groups_eq [OF assms(1)])
  then obtain p where p: "p \<in> set (combinations2 embs)" "clears sim threshold p" "g = pair_ids p"
    by auto
  obtain k1 v1 k2 v2 where pe: "p = ((k1, v1), (k2, v2))" by (metis prod.collapse)
  have m: "((k1, v1), (k2, v2)) \<in> set (combinations2 embs)" using p(1) pe by simp
  have "fst (k1, v1) \<noteq> fst (k2, v2)" using assms(1) m by (rule combinations2_keys_differ)
  then have ne: "k1 \<noteq> k2" by simp
  have mem: "(k1, v1) \<in> set embs \<and> (k2, v2) \<in> set embs"
    using m by (rule combinations2_members)
  have g: "g = [k1, k2]" using p(3) pe by (simp add: pair_ids_def)
  have c: "sim v1 v2 \<ge> threshold" using p(2) pe by (simp add: clears_def)
  from g ne mem c show ?thesis by blast
qed

lemma cluster_groups_distinct_sets:
  assumes "distinct (map fst embs)"
  shows "distinct (map set (cluster_groups sim embs threshold))"
proof -
  have "distinct (map (\<lambda>p. set (pair_ids p)) (filter (clears sim threshold) (combinations2 embs)))"
    using combinations2_pair_sets_distinct [OF assms] by (rule distinct_map_filter)
  then show ?thesis by (simp add: cluster_groups_eq [OF assms] comp_def)
qed

lemma cluster_groups_member:
  assumes "distinct (map fst embs)" and "((k1, v1), (k2, v2)) \<in> set (combinations2 embs)"
    and "sim v1 v2 \<ge> threshold"
  shows "[k1, k2] \<in> set (cluster_groups sim embs threshold)"
proof -
  have "clears sim threshold ((k1, v1), (k2, v2))" using assms(3) by (simp add: clears_def)
  with assms(2) have "pair_ids ((k1, v1), (k2, v2)) \<in>
      pair_ids ` set (filter (clears sim threshold) (combinations2 embs))"
    by (intro imageI) simp
  then show ?thesis by (simp add: cluster_groups_eq [OF assms(1)] pair_ids_def)
qed

lemma cluster_groups_sets:
  assumes "distinct (map fst embs)" and sym: "\<forall>x y. sim x y = sim y x"
  shows "set (map set (cluster_groups sim embs threshold)) =
         {{k1, k2} | k1 v1 k2 v2. (k1, v1) \<in> set embs \<and> (k2, v2) \<in> set embs \<and> k1 \<noteq> k2 \<and>
                                   sim v1 v2 \<ge> threshold}"
    (is "?L = ?R")
proof (rule set_eqI, rule iffI)
  fix s assume "s \<in> ?L"
  then obtain g where g: "g \<in> set (cluster_groups sim embs threshold)" and s: "s = set g" by auto
  from cluster_groups_pairs [OF assms(1) g] obtain k1 v1 k2 v2 where
    "g = [k1, k2]" "k1 \<noteq> k2" "(k1, v1) \<in> set embs" "(k2, v2) \<in> set embs" "sim v1 v2 \<ge> threshold"
    by blast
  moreover from this s have "s = {k1, k2}" by simp
  ultimately show "s \<in> ?R" by blast
next
  fix s assume "s \<in> ?R"
  then obtain k1 v1 k2 v2 where s: "s = {k1, k2}" and m1: "(k1, v1) \<in> set embs"
    and m2: "(k2, v2) \<in> set embs" and ne: "k1 \<noteq> k2" and c: "sim v1 v2 \<ge> threshold" by blast
  from ne have ne': "(k1, v1) \<noteq> (k2, v2)" by simp
  from combinations2_cover [OF m1 m2 ne']
  show "s \<in> ?L"
  proof
    assume a: "((k1, v1), (k2, v2)) \<in> set (combinations2 embs)"
    have "[k1, k2] \<in> set (cluster_groups sim embs threshold)"
      using assms(1) a c by (rule cluster_groups_member)
    then have "set [k1, k2] \<in> set ` set (cluster_groups sim embs threshold)" by (rule imageI)
    then show ?thesis using s by simp
  next
    assume a: "((k2, v2), (k1, v1)) \<in> set (combinations2 embs)"
    from c sym have c': "sim v2 v1 \<ge> threshold" by simp
    have "[k2, k1] \<in> set (cluster_groups sim embs threshold)"
      using assms(1) a c' by (rule cluster_groups_member)
    then have "set [k2, k1] \<in> set ` set (cluster_groups sim embs threshold)" by (rule imageI)
    moreover have "set [k2, k1] = s" using s by auto
    ultimately show ?thesis by simp
  qed
qed

lemma abc_distinct: "distinct (map fst abc_batch)"
  by (simp add: abc_batch_def)

lemma abc_groups:
  "cluster_groups inner_product abc_batch (35/100) = [[''A'', ''B''], [''B'', ''C'']]"
  by (simp add: cluster_groups_def inner_product_def abc_batch_def py_set_def issubset_def)

lemma abc_generate:
  "generate_shared_opportunity_nodes inner_product abc_batch (35/100) =
     Inr (abc_nodes, abc_connections)"
  unfolding generate_shared_opportunity_nodes_def abc_groups
  by (simp add: abc_batch_def getitem_def np_mean_axis0_def str_nat.simps
      digit_char_def Let_def abc_nodes_def abc_connections_def)

lemma connections_two_members:
  assumes "distinct (map fst embs)"
    and "generate_shared_opportunity_nodes sim embs threshold = Inr (nodes, conns)"
  shows "\<forall>(c, members) \<in> set conns.
           \<exists>k1 k2. members = [k1, k2] \<and> k1 \<noteq> k2 \<and> k1 \<in> fst ` set embs \<and> k2 \<in> fst ` set embs \<and>
                   length members = 2 \<and> card (set members) = 2"
proof -
  { fix c members assume "(c, members) \<in> set conns"
    then have "snd (c, members) \<in> snd ` set conns" by (rule imageI)
    then have "members \<in> set (map snd conns)" by simp
    then have "members \<in> set (cluster_groups sim embs threshold)"
      by (simp only: generate_connections_groups [OF assms(2)])
    from cluster_groups_pairs [OF assms(1) this] obtain k1 v1 k2 v2 where
      h: "members = [k1, k2]" "k1 \<noteq> k2" "(k1, v1) \<in> set embs" "(k2, v2) \<in> set embs" by blast
    have "k1 \<in> fst ` set embs" "k2 \<in> fst ` set embs"
      using h(3,4) by (simp_all add: rev_image_eqI)
    moreover have "length members = 2" "card (set members) = 2" using h(1,2) by simp_all
    ultimately have "\<exists>k1 k2. members = [k1, k2] \<and> k1 \<noteq> k2 \<and> k1 \<in> fst ` set embs \<and>
        k2 \<in> fst ` set embs \<and> length members = 2 \<and> card (set members) = 2"
      using h(1,2) by blast }
  then show ?thesis by blast
qed

lemma connections_subset_free:
  assumes "distinct (map fst embs)"
    and "generate_shared_opportunity_nodes sim embs threshold = Inr (nodes, conns)"
  shows "\<forall>(x, mx) \<in> set conns. \<forall>(y, my) \<in> set conns.
           x \<noteq> y \<longrightarrow> \<not> set mx \<subseteq> set my \<and> \<not> set my \<subseteq> set mx"
proof -
  let ?gs = "cluster_groups sim embs threshold"
  have len: "length conns = length ?gs"
    by (rule generate_connections_nth(1) [OF assms(2)])
  have nth: "conns ! i = (opp_key (i + 1), ?gs ! i)" if "i < length conns" for i
    using that by (rule generate_connections_nth(2) [OF assms(2)])
  have dist: "distinct (map set ?gs)" by (rule cluster_groups_distinct_sets [OF assms(1)])
  have two: "card (set g) = 2" if "g \<in> set ?gs" for g
  proof -
    from cluster_groups_pairs [OF assms(1) that] obtain k1 k2 where "g = [k1, k2]" "k1 \<noteq> k2"
      by blast
    then show ?thesis by simp
  qed
  { fix x mx y my
    assume a: "(x, mx) \<in> set conns" "(y, my) \<in> set conns" "x \<noteq> y"
    from a(1) obtain i where i: "i < length conns" "conns ! i = (x, mx)"
      by (auto simp: in_set_conv_nth)
    from a(2) obtain j where j: "j < length conns" "conns ! j = (y, my)"
      by (auto simp: in_set_conv_nth)
    from i j a(3) have ij: "i \<noteq> j" by auto
    have mx: "mx = ?gs ! i" using nth [OF i(1)] i(2) by simp
    have my: "my = ?gs ! j" using nth [OF j(1)] j(2) by simp
    have li: "i < length (map set ?gs)" and lj: "j < length (map set ?gs)"
      using i(1) j(1) len by simp_all
    have "map set ?gs ! i \<noteq> map set ?gs ! j"
      using nth_eq_iff_index_eq [OF dist li lj] ij by blast
    then have ne: "set mx \<noteq> set my" using mx my li lj by simp
    have cx: "card (set mx) = 2" using two [of mx] mx li by simp
    have cy: "card (set my) = 2" using two [of my] my lj by simp
    have "\<not> set mx \<subseteq> set my"
    proof
      assume "set mx \<subseteq> set my"
      then have "set mx = set my" using cx cy by (intro card_subset_eq) simp_all
      with ne show False ..
    qed
    moreover have "\<not> set my \<subseteq> set mx"
    proof
      assume "set my \<subseteq> set mx"
      then have "set my = set mx" using cx cy by (intro card_subset_eq) simp_all
      with ne show False by simp
    qed
    ultimately have "\<not> set mx \<subseteq> set my \<and> \<not> set my \<subseteq> set mx" .. }
  then show ?thesis by blast
qed

lemma getitem_member:
  "distinct (map fst d) \<Longrightarrow> (k, v) \<in> set d \<Longrightarrow> getitem d k = Inr v"
  by (simp add: getitem_def)

lemma lookup_all_pair:
  assumes "distinct (map fst d)" "(k1, v1) \<in> set d" "(k2, v2) \<in> set d"
  shows "lookup_all d [k1, k2] = Inr [v1, v2]"
  using assms by (simp add: getitem_member)

lemma np_mean_axis0_pair:
  assumes "length v2 = length v1"
  shows "np_mean_axis0 [v1, v2] = Inr (map (\<lambda>j. (v1 ! j + v2 ! j) / 2) [0..<length v1])"
  using assms by (simp add: np_mean_axis0_def)

lemma build_nodes_step:
  assumes "lookup_all embs g = Inr vecs" "np_mean_axis0 vecs = Inr center"
  shows "build_nodes embs idx (g # gs) (ns, cs) =
         build_nodes embs (Suc idx) gs
           (ns @ [opp_node ((idx, g), center)], AList.update (opp_key idx) g cs)"
  using assms by (simp add: Let_def opp_node_def opp_key_def opp_label_def)

lemma build_nodes_Inr_step:
  assumes "build_nodes embs idx (g # gs) (ns, cs) = Inr r"
  shows "\<exists>vecs center. lookup_all embs g = Inr vecs \<and> np_mean_axis0 vecs = Inr center"
  using assms by (auto split: sum.splits)

lemma build_nodes_centers:
  assumes "\<forall>g \<in> set gs. \<exists>k1 v1 k2 v2. g = [k1, k2] \<and> (k1, v1) \<in> set embs \<and> (k2, v2) \<in> set embs \<and>
             length v2 = length v1"
    and "distinct (map fst embs)"
  shows "\<exists>centers ns' cs'. build_nodes embs idx gs (ns, cs) = Inr (ns', cs') \<and>
           length centers = length gs \<and>
           ns' = ns @ map opp_node (zip (List.enumerate idx gs) centers) \<and>
           (\<forall>i<length gs. \<exists>k1 v1 k2 v2. gs ! i = [k1, k2] \<and> (k1, v1) \<in> set embs \<and>
               (k2, v2) \<in> set embs \<and>
               centers ! i = map (\<lambda>j. (v1 ! j + v2 ! j) / 2) [0..<length v1])"
  using assms(1)
proof (induction gs arbitrary: idx ns cs)
  case Nil
  then show ?case by simp
next
  case (Cons g gs)
  from Cons.prems obtain k1 v1 k2 v2 where g: "g = [k1, k2]" "(k1, v1) \<in> set embs"
    "(k2, v2) \<in> set embs" "length v2 = length v1" by auto
  let ?c = "map (\<lambda>j. (v1 ! j + v2 ! j) / 2) [0..<length v1]"
  have l: "lookup_all embs g = Inr [v1, v2]"
    unfolding g(1) using assms(2) g(2,3) by (rule lookup_all_pair)
  have m: "np_mean_axis0 [v1, v2] = Inr ?c" using g(4) by (rule np_mean_axis0_pair)
  have rest: "\<forall>g \<in> set gs. \<exists>k1 v1 k2 v2. g = [k1, k2] \<and> (k1, v1) \<in> set embs \<and>
      (k2, v2) \<in> set embs \<and> length v2 = length v1"
    using Cons.prems by simp
  from Cons.IH [OF rest, of "Suc idx" "ns @ [opp_node ((idx, g), ?c)]"
      "AList.update (opp_key idx) g cs"]
  obtain centers ns' cs' where
    r: "build_nodes embs (Suc idx) gs
          (ns @ [opp_node ((idx, g), ?c)], AList.update (opp_key idx) g cs) = Inr (ns', cs')"
    and len: "length centers = length gs"
    and ns': "ns' = (ns @ [opp_node ((idx, g), ?c)]) @ map opp_node (zip (List.enumerate (Suc idx) gs) centers)"
    and cen: "\<forall>i<length gs. \<exists>k1 v1 k2 v2. gs ! i = [k1, k2] \<and> (k1, v1) \<in> set embs \<and>
               (k2, v2) \<in> set embs \<and>
               centers ! i = map (\<lambda>j. (v1 ! j + v2 ! j) / 2) [0..<length v1]"
    by blast
  have b: "build_nodes embs idx (g # gs) (ns, cs) = Inr (ns', cs')"
    using build_nodes_step [OF l m] r by simp
  have n: "ns' = ns @ map opp_node (zip (List.enumerate idx (g # gs)) (?c # centers))"
    using ns' by simp
  have c: "\<forall>i<length (g # gs). \<exists>k1 v1 k2 v2. (g # gs) ! i = [k1, k2] \<and> (k1, v1) \<in> set embs \<and>
               (k2, v2) \<in> set embs \<and>
               (?c # centers) ! i = map (\<lambda>j. (v1 ! j + v2 ! j) / 2) [0..<length v1]"
  proof (intro allI impI)
    fix i assume i: "i < length (g # gs)"
    show "\<exists>k1 v1 k2 v2. (g # gs) ! i = [k1, k2] \<and> (k1, v1) \<in> set embs \<and>
               (k2, v2) \<in> set embs \<and>
               (?c # centers) ! i = map (\<lambda>j. (v1 ! j + v2 ! j) / 2) [0..<length v1]"
    proof (cases i)
      case 0
      then show ?thesis using g(1,2,3) by auto
    next
      case (Suc i')
      then have "i' < length gs" using i by simp
      with cen Suc show ?thesis by simp
    qed
  qed
  have "length (?c # centers) = length (g # gs)" using len by simp
  with b n c show ?case by blast
qed

lemma generate_total:
  assumes d: "distinct (map fst embs)" and u: "\<forall>(k, v) \<in> set embs. length v = n"
  shows "\<exists>centers nodes conns.
           generate_shared_opportunity_nodes sim embs threshold = Inr (nodes, conns) \<and>
           length centers = length (cluster_groups sim embs threshold) \<and>
           nodes = map opp_node (zip (List.enumerate 1 (cluster_groups sim embs threshold)) centers) \<and>
           (\<forall>i<length (cluster_groups sim embs threshold). \<exists>k1 v1 k2 v2.
               cluster_groups sim embs threshold ! i = [k1, k2] \<and> (k1, v1) \<in> set embs \<and>
               (k2, v2) \<in> set embs \<and>
               centers ! i = map (\<lambda>j. (v1 ! j + v2 ! j) / 2) [0..<length v1])"
proof -
  let ?gs = "cluster_groups sim embs threshold"
  have pre: "\<forall>g \<in> set ?gs. \<exists>k1 v1 k2 v2. g = [k1, k2] \<and> (k1, v1) \<in> set embs \<and>
               (k2, v2) \<in> set embs \<and> length v2 = length v1"
  proof
    fix g assume "g \<in> set ?gs"
    from cluster_groups_pairs [OF d this] obtain k1 v1 k2 v2 where
      h: "g = [k1, k2]" "(k1, v1) \<in> set embs" "(k2, v2) \<in> set embs" by blast
    have "length v1 = n" "length v2 = n" using u h(2,3) by auto
    with h show "\<exists>k1 v1 k2 v2. g = [k1, k2] \<and> (k1, v1) \<in> set embs \<and>
               (k2, v2) \<in> set embs \<and> length v2 = length v1" by auto
  qed
  from build_nodes_centers [OF pre d, of 1 "[]" "[]"]
  show ?thesis unfolding generate_shared_opportunity_nodes_def by simp
qed

lemma map_of_nth:
  assumes "distinct (map fst xs)" "i < length xs"
  shows "map_of xs (fst (xs ! i)) = Some (snd (xs ! i))"
  using assms by (intro map_of_is_SomeI) (simp_all)

lemma map_fst_keyed:
  "map fst (map (\<lambda>(i, g). (opp_key i, g)) xs) = map opp_key (map fst xs)"
  by (induction xs) auto

lemma connections_distinct:
  assumes "generate_shared_opportunity_nodes sim embs threshold = Inr (nodes, conns)"
  shows "distinct (map fst conns)"
proof -
  let ?e = "List.enumerate 1 (cluster_groups sim embs threshold)"
  have "distinct (map fst ?e)" by (simp only: map_fst_enumerate distinct_upt)
  moreover have "inj_on opp_key (set (map fst ?e))"
    by (rule inj_onI) (rule opp_key_inj)
  ultimately have "distinct (map opp_key (map fst ?e))"
    by (simp only: distinct_map simp_thms)
  then show ?thesis
    by (simp only: generate_connections(1) [OF assms] map_fst_keyed)
qed

text \<open>
  Claim C7. For a batch whose ids are distinct and whose vectors have one dimension, the
  engine returns one node and one membership entry per accepted group, in discovery
  order: the \<open>i\<close>-th node (counting from 0) has the id \<open>OPPORTUNITY_(i+1)\<close>, its embedding
  is the element-wise mean of the vectors of the two members of the \<open>i\<close>-th group, and the
  membership map sends that id to exactly these members.
\<close>

theorem centroids_and_discovery_order_ids:
  assumes d: "distinct (map fst embs)" and u: "\<forall>(k, v) \<in> set embs. length v = n"
  shows "\<exists>nodes conns.
           generate_shared_opportunity_nodes sim embs threshold = Inr (nodes, conns) \<and>
           length nodes = length (cluster_groups sim embs threshold) \<and>
           length conns = length (cluster_groups sim embs threshold) \<and>
           (\<forall>i<length (cluster_groups sim embs threshold). \<exists>k1 v1 k2 v2.
               cluster_groups sim embs threshold ! i = [k1, k2] \<and>
               (k1, v1) \<in> set embs \<and> (k2, v2) \<in> set embs \<and>
               embedding (nodes ! i) = Some (map (\<lambda>j. (v1 ! j + v2 ! j) / 2) [0..<n]) \<and>
               node_id (nodes ! i) = ''OPPORTUNITY_'' @ str_nat (i + 1) \<and>
               conns ! i = (''OPPORTUNITY_'' @ str_nat (i + 1), [k1, k2]) \<and>
               map_of conns (''OPPORTUNITY_'' @ str_nat (i + 1)) = Some [k1, k2])"
proof -
  let ?gs = "cluster_groups sim embs threshold"
  from generate_total [OF d u, of sim threshold] obtain centers nodes conns where
    g: "generate_shared_opportunity_nodes sim embs threshold = Inr (nodes, conns)"
    and lc: "length centers = length ?gs"
    and ns: "nodes = map opp_node (zip (List.enumerate 1 ?gs) centers)"
    and cs: "\<forall>i<length ?gs. \<exists>k1 v1 k2 v2. ?gs ! i = [k1, k2] \<and> (k1, v1) \<in> set embs \<and>
               (k2, v2) \<in> set embs \<and>
               centers ! i = map (\<lambda>j. (v1 ! j + v2 ! j) / 2) [0..<length v1]"
    by blast
  have ln: "length nodes = length ?gs" using ns lc by simp
  have lcn: "length conns = length ?gs" by (rule generate_connections_nth(1) [OF g])
  have dc: "distinct (map fst conns)" by (rule connections_distinct [OF g])
  have each: "\<exists>k1 v1 k2 v2.
               ?gs ! i = [k1, k2] \<and> (k1, v1) \<in> set embs \<and> (k2, v2) \<in> set embs \<and>
               embedding (nodes ! i) = Some (map (\<lambda>j. (v1 ! j + v2 ! j) / 2) [0..<n]) \<and>
               node_id (nodes ! i) = ''OPPORTUNITY_'' @ str_nat (i + 1) \<and>
               conns ! i = (''OPPORTUNITY_'' @ str_nat (i + 1), [k1, k2]) \<and>
               map_of conns (''OPPORTUNITY_'' @ str_nat (i + 1)) = Some [k1, k2]"
    if i: "i < length ?gs" for i
  proof -
    from cs i obtain k1 v1 k2 v2 where h: "?gs ! i = [k1, k2]" "(k1, v1) \<in> set embs"
      "(k2, v2) \<in> set embs" "centers ! i = map (\<lambda>j. (v1 ! j + v2 ! j) / 2) [0..<length v1]"
      by blast
    have n: "length v1 = n" using u h(2) by auto
    have ni: "nodes ! i = opp_node ((1 + i, ?gs ! i), centers ! i)"
      using i lc unfolding ns by (simp add: nth_enumerate_eq)
    have e: "embedding (nodes ! i) = Some (map (\<lambda>j. (v1 ! j + v2 ! j) / 2) [0..<n])"
      unfolding ni using h(4) n by (simp add: opp_node_def)
    have k: "node_id (nodes ! i) = ''OPPORTUNITY_'' @ str_nat (i + 1)"
      unfolding ni by (simp add: opp_node_def opp_key_def)
    have ic: "i < length conns" using i lcn by simp
    have c: "conns ! i = (''OPPORTUNITY_'' @ str_nat (i + 1), [k1, k2])"
      using generate_connections_nth(2) [OF g ic] h(1) by (simp add: opp_key_def)
    have m: "map_of conns (''OPPORTUNITY_'' @ str_nat (i + 1)) = Some [k1, k2]"
      using map_of_nth [OF dc ic] c by simp
    from h(1,2,3) e k c m show ?thesis by blast
  qed
  from g ln lcn each show ?thesis by blast
qed

theorem centroids_and_discovery_order_ids_witness:
  "distinct (map fst abc_batch) \<and>
   cluster_groups inner_product abc_batch (35/100) = [[''A'', ''B''], [''B'', ''C'']] \<and>
   (\<exists>nodes conns.
      generate_shared_opportunity_nodes inner_product abc_batch (35/100) = Inr (nodes, conns) \<and>
      length nodes = length (cluster_groups inner_product abc_batch (35/100)) \<and>
      length conns = length (cluster_groups inner_product abc_batch (35/100)) \<and>
      (\<forall>i<length (cluster_groups inner_product abc_batch (35/100)). \<exists>k1 v1 k2 v2.
          cluster_groups inner_product abc_batch (35/100) ! i = [k1, k2] \<and>
          (k1, v1) \<in> set abc_batch \<and> (k2, v2) \<in> set abc_batch \<and>
          embedding (nodes ! i) = Some (map (\<lambda>j. (v1 ! j + v2 ! j) / 2) [0..<2]) \<and>
          node_id (nodes ! i) = ''OPPORTUNITY_'' @ str_nat (i + 1) \<and>
          conns ! i = (''OPPORTUNITY_'' @ str_nat (i + 1), [k1, k2]) \<and>
          map_of conns (''OPPORTUNITY_'' @ str_nat (i + 1)) = Some [k1, k2]))"
proof -
  have u: "\<forall>(k, v) \<in> set abc_batch. length v = 2" by (simp add: abc_batch_def)
  from centroids_and_discovery_order_ids [OF abc_distinct u, of inner_product "35/100"]
    abc_distinct abc_groups
  show ?thesis by (intro conjI)
qed

text \<open>
  Claim C2. Three documents A, B, C with similarities 0.4 for (A, B), 0.4 for (B, C) and
  0.1 for (A, C), clustered with the threshold 0.35: the accepted groups are exactly the
  two pairs \<open>[A, B]\<close> and \<open>[B, C]\<close>, under the ids \<open>OPPORTUNITY_1\<close> and \<open>OPPORTUNITY_2\<close>;
  the three documents are not merged into one group.
\<close>

theorem overlapping_pairs_are_not_merged:
  assumes "a \<noteq> b" "b \<noteq> c" "a \<noteq> c"
    and "sim va vb = 4/10" "sim vb vc = 4/10" "sim va vc = 1/10"
    and "length vb = length va" "length vc = length va"
  shows "cluster_groups sim [(a, va), (b, vb), (c, vc)] (35/100) = [[a, b], [b, c]] \<and>
         (\<exists>nodes. generate_shared_opportunity_nodes sim [(a, va), (b, vb), (c, vc)] (35/100) =
            Inr (nodes, [(''OPPORTUNITY_1'', [a, b]), (''OPPORTUNITY_2'', [b, c])]))"
proof -
  have g: "cluster_groups sim [(a, va), (b, vb), (c, vc)] (35/100) = [[a, b], [b, c]]"
    using assms(1-6) by (simp add: cluster_groups_def py_set_def issubset_def)
  have "\<exists>nodes. generate_shared_opportunity_nodes sim [(a, va), (b, vb), (c, vc)] (35/100) =
            Inr (nodes, [(''OPPORTUNITY_1'', [a, b]), (''OPPORTUNITY_2'', [b, c])])"
    unfolding generate_shared_opportunity_nodes_def g
    using assms(1-3,7,8)
    by (simp add: getitem_def np_mean_axis0_def str_nat.simps digit_char_def Let_def)
  with g show ?thesis ..
qed

theorem overlapping_pairs_are_not_merged_witness:
  "''A'' \<noteq> ''B'' \<and> ''B'' \<noteq> ''C'' \<and> ''A'' \<noteq> ''C'' \<and>
   inner_product [1, 0] [2/5, 2/5] = 4/10 \<and> inner_product [2/5, 2/5] [1/10, 9/10] = 4/10 \<and>
   inner_product [1, 0] [1/10, 9/10] = 1/10 \<and>
   cluster_groups inner_product [(''A'', [1, 0]), (''B'', [2/5, 2/5]), (''C'', [1/10, 9/10])] (35/100)
     = [[''A'', ''B''], [''B'', ''C'']] \<and>
   (\<exists>nodes. generate_shared_opportunity_nodes inner_product
              [(''A'', [1, 0]), (''B'', [2/5, 2/5]), (''C'', [1/10, 9/10])] (35/100) =
            Inr (nodes, [(''OPPORTUNITY_1'', [''A'', ''B'']), (''OPPORTUNITY_2'', [''B'', ''C''])]))"
proof -
  have n: "''A'' \<noteq> ''B''" "''B'' \<noteq> ''C''" "''A'' \<noteq> ''C''" by simp_all
  have s: "inner_product [1, 0] [2/5, 2/5] = 4/10"
    "inner_product [2/5, 2/5] [1/10, 9/10] = 4/10"
    "inner_product [1, 0] [1/10, 9/10] = 1/10"
    by (simp_all add: inner_product_def)
  have l: "length [2/5, 2/5 :: real] = length [1, 0 :: real]"
    "length [1/10, 9/10 :: real] = length [1, 0 :: real]" by simp_all
  from overlapping_pairs_are_not_merged [OF n s l] n s show ?thesis by (intro conjI) simp_all
qed

text \<open>
  Claim C9. Two batches with the same entries in different insertion orders (a symmetric
  similarity, vectors of one dimension) are both clustered, and the member sets of the
  two membership maps form the same set of sets; the ids given to them may differ.
\<close>

theorem clustering_is_order_independent:
  assumes "distinct (map fst embs)" and "distinct (map fst embs')" and "set embs' = set embs"
    and "\<forall>x y. sim x y = sim y x"
    and "\<forall>(k, v) \<in> set embs. length v = n"
  shows "\<exists>nodes conns nodes' conns'.
           generate_shared_opportunity_nodes sim embs threshold = Inr (nodes, conns) \<and>
           generate_shared_opportunity_nodes sim embs' threshold = Inr (nodes', conns') \<and>
           set (map (\<lambda>(c, members). set members) conns') =
           set (map (\<lambda>(c, members). set members) conns)"
proof -
  have u': "\<forall>(k, v) \<in> set embs'. length v = n" using assms(3,5) by simp
  from generate_total [OF assms(1,5), of sim threshold] obtain nodes conns where
    g: "generate_shared_opportunity_nodes sim embs threshold = Inr (nodes, conns)" by blast
  from generate_total [OF assms(2) u', of sim threshold] obtain nodes' conns' where
    g': "generate_shared_opportunity_nodes sim embs' threshold = Inr (nodes', conns')" by blast
  have m: "map (\<lambda>(c, members). set members) xs = map set (map snd xs)"
    for xs :: "(string \<times> doc_id list) list"
    by (induction xs) auto
  have "set (map set (cluster_groups sim embs' threshold)) =
        set (map set (cluster_groups sim embs threshold))"
    unfolding cluster_groups_sets [OF assms(1,4)] cluster_groups_sets [OF assms(2,4)] assms(3) ..
  then have "set (map (\<lambda>(c, members). set members) conns') =
             set (map (\<lambda>(c, members). set members) conns)"
    unfolding m generate_connections_groups [OF g] generate_connections_groups [OF g'] .
  with g g' show ?thesis by blast
qed

lemma inner_product_commute: "inner_product x y = inner_product y x"
proof -
  have "map2 (*) x y = map2 (*) y x"
  proof (induction x arbitrary: y)
    case Nil
    then show ?case by simp
  next
    case (Cons a x)
    then show ?case by (cases y) (simp_all add: mult.commute)
  qed
  then show ?thesis by (simp add: inner_product_def)
qed

theorem clustering_is_order_independent_witness:
  "distinct (map fst abc_batch) \<and> distinct (map fst cba_batch) \<and> set cba_batch = set abc_batch \<and>
   cluster_groups inner_product abc_batch (35/100) = [[''A'', ''B''], [''B'', ''C'']] \<and>
   cluster_groups inner_product cba_batch (35/100) = [[''C'', ''B''], [''B'', ''A'']] \<and>
   (\<exists>nodes conns nodes' conns'.
      generate_shared_opportunity_nodes inner_product abc_batch (35/100) = Inr (nodes, conns) \<and>
      generate_shared_opportunity_nodes inner_product cba_batch (35/100) = Inr (nodes', conns') \<and>
      set (map (\<lambda>(c, members). set members) conns') =
      set (map (\<lambda>(c, members). set members) conns))"
proof -
  have d': "distinct (map fst cba_batch)" by (simp add: cba_batch_def)
  have e: "set cba_batch = set abc_batch" by (auto simp: cba_batch_def abc_batch_def)
  have s: "\<forall>x y. inner_product x y = inner_product y x" using inner_product_commute by blast
  have u: "\<forall>(k, v) \<in> set abc_batch. length v = 2" by (simp add: abc_batch_def)
  have g': "cluster_groups inner_product cba_batch (35/100) = [[''C'', ''B''], [''B'', ''A'']]"
    by (simp add: cluster_groups_def inner_product_def cba_batch_def py_set_def issubset_def)
  from clustering_is_order_independent [OF abc_distinct d' e s u, of "35/100"]
    abc_distinct d' e abc_groups g'
  show ?thesis by (intro conjI)
qed

text \<open>
  Claim C10. The engine returns a membership map in which every cluster has exactly two
  members: the list of the two distinct document ids of one pair of the batch, to which
  nothing is added afterwards.
\<close>

theorem clusters_have_exactly_two_members:
  assumes "distinct (map fst embs)" and "\<forall>(k, v) \<in> set embs. length v = n"
  shows "\<exists>nodes conns.
           generate_shared_opportunity_nodes sim embs threshold = Inr (nodes, conns) \<and>
           (\<forall>(c, members) \<in> set conns.
              \<exists>k1 k2. members = [k1, k2] \<and> k1 \<noteq> k2 \<and> k1 \<in> fst ` set embs \<and>
                      k2 \<in> fst ` set embs \<and> length members = 2 \<and> card (set members) = 2)"
proof -
  from generate_total [OF assms, of sim threshold] obtain nodes conns where
    g: "generate_shared_opportunity_nodes sim embs threshold = Inr (nodes, conns)" by blast
  from g connections_two_members [OF assms(1) g] show ?thesis by blast
qed

theorem clusters_have_exactly_two_members_witness:
  "distinct (map fst abc_batch) \<and>
   generate_shared_opportunity_nodes inner_product abc_batch (35/100) =
     Inr (abc_nodes, abc_connections) \<and>
   (\<exists>nodes conns.
           generate_shared_opportunity_nodes inner_product abc_batch (35/100) = Inr (nodes, conns) \<and>
           (\<forall>(c, members) \<in> set conns.
              \<exists>k1 k2. members = [k1, k2] \<and> k1 \<noteq> k2 \<and> k1 \<in> fst ` set abc_batch \<and>
                      k2 \<in> fst ` set abc_batch \<and> length members = 2 \<and> card (set members) = 2))"
proof -
  have u: "\<forall>(k, v) \<in> set abc_batch. length v = 2" by (simp add: abc_batch_def)
  from clusters_have_exactly_two_members [OF abc_distinct u, of inner_product "35/100"]
    abc_distinct abc_generate
  show ?thesis by (intro conjI)
qed

text \<open>
  Claim C1. The engine returns a membership map in which, for any two distinct cluster
  ids, the member set of neither cluster is a subset of the member set of the other.
\<close>

theorem no_cluster_is_subset_of_another:
  assumes "distinct (map fst embs)" and "\<forall>(k, v) \<in> set embs. length v = n"
  shows "\<exists>nodes conns.
           generate_shared_opportunity_nodes sim embs threshold = Inr (nodes, conns) \<and>
           (\<forall>(x, mx) \<in> set conns. \<forall>(y, my) \<in> set conns.
              x \<noteq> y \<longrightarrow> \<not> set mx \<subseteq> set my \<and> \<not> set my \<subseteq> set mx)"
proof -
  from generate_total [OF assms, of sim threshold] obtain nodes conns where
    g: "generate_shared_opportunity_nodes sim embs threshold = Inr (nodes, conns)" by blast
  from g connections_subset_free [OF assms(1) g] show ?thesis by blast
qed

theorem no_cluster_is_subset_of_another_witness:
  "distinct (map fst abc_batch) \<and>
   generate_shared_opportunity_nodes inner_product abc_batch (35/100) =
     Inr (abc_nodes, abc_connections) \<and>
   (\<exists>nodes conns.
           generate_shared_opportunity_nodes inner_product abc_batch (35/100) = Inr (nodes, conns) \<and>
           (\<forall>(x, mx) \<in> set conns. \<forall>(y, my) \<in> set conns.
              x \<noteq> y \<longrightarrow> \<not> set mx \<subseteq> set my \<and> \<not> set my \<subseteq> set mx))"
proof -
  have u: "\<forall>(k, v) \<in> set abc_batch. length v = 2" by (simp add: abc_batch_def)
  from no_cluster_is_subset_of_another [OF abc_distinct u, of inner_product "35/100"]
    abc_distinct abc_generate
  show ?thesis by (intro conjI)
qed

section \<open>Properties of the flagship selection\<close>

lemma max_loop_first_max:
  assumes "\<forall>x \<in> set xs. key x = Inr (f x)"
    and "b < length pre" and "best = pre ! b"
    and "\<forall>j<length pre. f (pre ! j) \<le> f best"
    and "\<forall>j<b. f (pre ! j) < f best"
  shows "\<exists>i<length (pre @ xs). max_loop key xs best (f best) = Inr ((pre @ xs) ! i) \<and>
           (\<forall>j<length (pre @ xs). f ((pre @ xs) ! j) \<le> f ((pre @ xs) ! i)) \<and>
           (\<forall>j<i. f ((pre @ xs) ! j) < f ((pre @ xs) ! i))"
  using assms
proof (induction xs arbitrary: pre b best)
  case Nil
  then show ?case by auto
next
  case (Cons x xs)
  have kx: "key x = Inr (f x)" using Cons.prems(1) by simp
  have rest: "\<forall>y \<in> set xs. key y = Inr (f y)" using Cons.prems(1) by simp
  show ?case
  proof (cases "f x > f best")
    case True
    have a2: "length pre < length (pre @ [x])" by simp
    have a3: "x = (pre @ [x]) ! length pre" by simp
    have a4: "\<forall>j<length (pre @ [x]). f ((pre @ [x]) ! j) \<le> f x"
    proof (intro allI impI)
      fix j assume "j < length (pre @ [x])"
      then consider "j < length pre" | "j = length pre" by force
      then show "f ((pre @ [x]) ! j) \<le> f x"
      proof cases
        case 1
        then have "f (pre ! j) \<le> f best" using Cons.prems(4) by simp
        with True 1 show ?thesis by (simp add: nth_append)
      next
        case 2
        then show ?thesis by simp
      qed
    qed
    have a5: "\<forall>j<length pre. f ((pre @ [x]) ! j) < f x"
    proof (intro allI impI)
      fix j assume j: "j < length pre"
      then have "f (pre ! j) \<le> f best" using Cons.prems(4) by simp
      with True j show "f ((pre @ [x]) ! j) < f x" by (simp add: nth_append)
    qed
    from Cons.IH [OF rest a2 a3 a4 a5]
    show ?thesis using kx True by simp
  next
    case False
    have a2: "b < length (pre @ [x])" using Cons.prems(2) by simp
    have a3: "best = (pre @ [x]) ! b" using Cons.prems(2,3) by (simp add: nth_append)
    have a4: "\<forall>j<length (pre @ [x]). f ((pre @ [x]) ! j) \<le> f best"
    proof (intro allI impI)
      fix j assume "j < length (pre @ [x])"
      then consider "j < length pre" | "j = length pre" by force
      then show "f ((pre @ [x]) ! j) \<le> f best"
      proof cases
        case 1
        then show ?thesis using Cons.prems(4) by (simp add: nth_append)
      next
        case 2
        then show ?thesis using False by simp
      qed
    qed
    have a5: "\<forall>j<b. f ((pre @ [x]) ! j) < f best"
      using Cons.prems(2,5) by (simp add: nth_append)
    from Cons.IH [OF rest a2 a3 a4 a5]
    show ?thesis using kx False by simp
  qed
qed

lemma py_max_first_max:
  assumes "xs \<noteq> []" and "\<forall>x \<in> set xs. key x = Inr (f x)"
  shows "\<exists>i<length xs. py_max key xs = Inr (xs ! i) \<and>
           (\<forall>j<length xs. f (xs ! j) \<le> f (xs ! i)) \<and>
           (\<forall>j<i. f (xs ! j) < f (xs ! i))"
proof -
  from assms(1) obtain x rest where xs: "xs = x # rest" by (cases xs) auto
  have r: "\<forall>y \<in> set rest. key y = Inr (f y)" using assms(2) xs by simp
  have kx: "key x = Inr (f x)" using assms(2) xs by simp
  from max_loop_first_max [OF r, of 0 "[x]" x]
  show ?thesis unfolding xs py_max_def using kx by simp
qed

lemma getitem_nth:
  assumes "distinct (map fst d)" "i < length d"
  shows "getitem d (fst (d ! i)) = Inr (snd (d ! i))"
  using map_of_nth [OF assms] by (simp add: getitem_def)

lemma len_of_size_of:
  assumes "distinct (map fst opp_links)" "k \<in> set (map fst opp_links)"
  shows "len_of opp_links k = Inr (size_of opp_links k)"
proof -
  from assms(2) obtain i where i: "i < length opp_links" "k = fst (opp_links ! i)"
    by (auto simp: in_set_conv_nth)
  show ?thesis
    using getitem_nth [OF assms(1) i(1)] map_of_nth [OF assms(1) i(1)]
    by (simp add: len_of_def size_of_def i(2))
qed

text \<open>
  Claim C3. The flagship selection never fails on a well-formed membership map (distinct
  cluster ids, duplicate-free member sets). On an empty map it returns the ids of all
  documents of the batch. On a non-empty map it returns the members of the entry at some
  position \<open>i\<close> such that no entry has more members and every entry before position \<open>i\<close>
  has strictly fewer: the largest cluster, and among several largest ones the first in
  insertion order. In a map of the clustering engine the entry at position \<open>i\<close> has the
  id \<open>OPPORTUNITY_(i+1)\<close>, so this is the lowest numeric id.
\<close>

theorem flagship_is_first_largest_cluster:
  assumes d: "distinct (map fst opp_links)"
    and s: "\<forall>(c, members) \<in> set opp_links. distinct members"
  shows "(opp_links = [] \<longrightarrow>
            patents_for_startup opp_links patent_embeddings = Inr (map fst patent_embeddings)) \<and>
         (opp_links \<noteq> [] \<longrightarrow>
            (\<exists>i<length opp_links.
               patents_for_startup opp_links patent_embeddings = Inr (snd (opp_links ! i)) \<and>
               (\<forall>j<length opp_links.
                  card (set (snd (opp_links ! j))) \<le> card (set (snd (opp_links ! i)))) \<and>
               (\<forall>j<i. card (set (snd (opp_links ! j))) < card (set (snd (opp_links ! i))))))"
proof (intro conjI impI)
  assume "opp_links = []"
  then show "patents_for_startup opp_links patent_embeddings = Inr (map fst patent_embeddings)"
    by (simp add: patents_for_startup_def)
next
  assume ne: "opp_links \<noteq> []"
  let ?keys = "map fst opp_links"
  have kne: "?keys \<noteq> []" using ne by simp
  have tot: "\<forall>k \<in> set ?keys. len_of opp_links k = Inr (size_of opp_links k)"
    using len_of_size_of [OF d] by blast
  from py_max_first_max [OF kne tot] obtain i where
    i: "i < length ?keys" and m: "py_max (len_of opp_links) ?keys = Inr (?keys ! i)"
    and le: "\<forall>j<length ?keys. size_of opp_links (?keys ! j) \<le> size_of opp_links (?keys ! i)"
    and lt: "\<forall>j<i. size_of opp_links (?keys ! j) < size_of opp_links (?keys ! i)"
    by blast
  have il: "i < length opp_links" using i by simp
  have sz: "size_of opp_links (?keys ! j) = card (set (snd (opp_links ! j)))"
    if j: "j < length opp_links" for j
  proof -
    have "distinct (snd (opp_links ! j))" using s j nth_mem [OF j] by (auto simp: case_prod_beta)
    then show ?thesis
      using map_of_nth [OF d j] j by (simp add: size_of_def distinct_card)
  qed
  have r: "patents_for_startup opp_links patent_embeddings = Inr (snd (opp_links ! i))"
    using ne m getitem_nth [OF d il] il by (simp add: patents_for_startup_def)
  have le': "\<forall>j<length opp_links.
                  card (set (snd (opp_links ! j))) \<le> card (set (snd (opp_links ! i)))"
    using le sz il by simp
  have lt': "\<forall>j<i. card (set (snd (opp_links ! j))) < card (set (snd (opp_links ! i)))"
    using lt sz il by simp
  from il r le' lt'
  show "\<exists>i<length opp_links.
               patents_for_startup opp_links patent_embeddings = Inr (snd (opp_links ! i)) \<and>
               (\<forall>j<length opp_links.
                  card (set (snd (opp_links ! j))) \<le> card (set (snd (opp_links ! i)))) \<and>
               (\<forall>j<i. card (set (snd (opp_links ! j))) < card (set (snd (opp_links ! i))))"
    by blast
qed

theorem flagship_is_first_largest_cluster_witness:
  "distinct (map fst tie_links) \<and>
   patents_for_startup tie_links abc_batch = Inr [''B'', ''C'', ''D''] \<and>
   patents_for_startup [] abc_batch = Inr [''A'', ''B'', ''C''] \<and>
   (\<exists>i<length tie_links.
       patents_for_startup tie_links abc_batch = Inr (snd (tie_links ! i)) \<and>
       (\<forall>j<length tie_links.
          card (set (snd (tie_links ! j))) \<le> card (set (snd (tie_links ! i)))) \<and>
       (\<forall>j<i. card (set (snd (tie_links ! j))) < card (set (snd (tie_links ! i)))))"
proof -
  have d: "distinct (map fst tie_links)" by (simp add: tie_links_def)
  have s: "\<forall>(c, members) \<in> set tie_links. distinct members" by (simp add: tie_links_def)
  have ne: "tie_links \<noteq> []" by (simp add: tie_links_def)
  have r: "patents_for_startup tie_links abc_batch = Inr [''B'', ''C'', ''D'']"
    by (simp add: patents_for_startup_def tie_links_def py_max_def len_of_def getitem_def)
  have e: "patents_for_startup [] abc_batch = Inr [''A'', ''B'', ''C'']"
    using flagship_is_first_largest_cluster [of "[]" abc_batch] by (simp add: abc_batch_def)
  from flagship_is_first_largest_cluster [OF d s, of abc_batch] ne
  have "\<exists>i<length tie_links.
       patents_for_startup tie_links abc_batch = Inr (snd (tie_links ! i)) \<and>
       (\<forall>j<length tie_links.
          card (set (snd (tie_links ! j))) \<le> card (set (snd (tie_links ! i)))) \<and>
       (\<forall>j<i. card (set (snd (tie_links ! j))) < card (set (snd (tie_links ! i))))"
    by blast
  with d r e show ?thesis by (intro conjI)
qed

section \<open>Properties of the graph of the handler\<close>

lemma adj_add_node [simp]: "adj (add_node G n attrs) = adj G"
  by (simp add: add_node_def)

lemma adj_add_edge: "adj (add_edge G u v w) = (adj G)((u, v) \<mapsto> w, (v, u) \<mapsto> w)"
  by (simp add: add_edge_def Let_def)

lemma patent_node_inj [simp]: "patent_node a = patent_node b \<longleftrightarrow> a = b"
  by (simp add: patent_node_def)

lemma link_step_adj:
  "adj (link_step sim threshold p G) =
     (if sim (snd (fst p)) (snd (snd p)) > threshold
      then (adj G)(link_edge p \<mapsto> sim (snd (fst p)) (snd (snd p)),
                   link_edge_rev p \<mapsto> sim (snd (fst p)) (snd (snd p)))
      else adj G)"
proof -
  obtain f1 e1 f2 e2 where "p = ((f1, e1), (f2, e2))" by (metis prod.collapse)
  then show ?thesis by (simp add: adj_add_edge link_edge_def link_edge_rev_def)
qed

lemma link_untouched:
  assumes "\<forall>p \<in> set ps. e \<noteq> link_edge p \<and> e \<noteq> link_edge_rev p"
  shows "adj (fold (link_step sim threshold) ps G) e = adj G e"
  using assms
proof (induction ps arbitrary: G)
  case Nil
  then show ?case by simp
next
  case (Cons p ps)
  have "adj (fold (link_step sim threshold) ps (link_step sim threshold p G)) e =
        adj (link_step sim threshold p G) e"
    using Cons.prems by (intro Cons.IH) simp
  also have "\<dots> = adj G e" using Cons.prems by (simp add: link_step_adj)
  finally show ?case by simp
qed

lemma link_edge_pair_ids:
  "e = link_edge p \<or> e = link_edge_rev p \<Longrightarrow> e = link_edge q \<or> e = link_edge_rev q \<Longrightarrow>
   set (pair_ids p) = set (pair_ids q)"
  by (auto simp: link_edge_def link_edge_rev_def pair_ids_def)

lemma link_touched:
  assumes d: "distinct (map (\<lambda>p. set (pair_ids p)) ps)" and p: "p \<in> set ps"
  shows "adj (fold (link_step sim threshold) ps G) (link_edge p) =
           (if sim (snd (fst p)) (snd (snd p)) > threshold
            then Some (sim (snd (fst p)) (snd (snd p))) else adj G (link_edge p))"
    and "adj (fold (link_step sim threshold) ps G) (link_edge_rev p) =
           (if sim (snd (fst p)) (snd (snd p)) > threshold
            then Some (sim (snd (fst p)) (snd (snd p))) else adj G (link_edge_rev p))"
proof -
  from p obtain pre post where ps: "ps = pre @ p # post" by (auto simp: in_set_conv_decomp)
  have other: "set (pair_ids q) \<noteq> set (pair_ids p)" if "q \<in> set pre \<union> set post" for q
    using d that unfolding ps by auto
  have u: "\<forall>q \<in> set qs. e \<noteq> link_edge q \<and> e \<noteq> link_edge_rev q"
    if "e = link_edge p \<or> e = link_edge_rev p" "set qs \<subseteq> set pre \<union> set post" for e qs
  proof
    fix q assume "q \<in> set qs"
    then have "set (pair_ids q) \<noteq> set (pair_ids p)" using other that(2) by blast
    then show "e \<noteq> link_edge q \<and> e \<noteq> link_edge_rev q"
      using link_edge_pair_ids [OF that(1), of q] by blast
  qed
  have main: "adj (fold (link_step sim threshold) ps G) e =
           adj (link_step sim threshold p G) e"
    if e: "e = link_edge p \<or> e = link_edge_rev p" for e
  proof -
    let ?G1 = "fold (link_step sim threshold) pre G"
    have "adj (fold (link_step sim threshold) ps G) e =
          adj (fold (link_step sim threshold) post (link_step sim threshold p ?G1)) e"
      by (simp add: ps)
    also have "\<dots> = adj (link_step sim threshold p ?G1) e"
      by (rule link_untouched) (rule u [OF e], simp)
    also have "\<dots> = adj (link_step sim threshold p G) e"
    proof -
      have "adj ?G1 e' = adj G e'"
        if "e' = link_edge p \<or> e' = link_edge_rev p" for e'
        by (rule link_untouched) (rule u [OF that], simp)
      then have "adj ?G1 (link_edge p) = adj G (link_edge p)"
        "adj ?G1 (link_edge_rev p) = adj G (link_edge_rev p)" by simp_all
      then show ?thesis using e by (auto simp: link_step_adj)
    qed
    finally show ?thesis .
  qed
  show "adj (fold (link_step sim threshold) ps G) (link_edge p) =
           (if sim (snd (fst p)) (snd (snd p)) > threshold
            then Some (sim (snd (fst p)) (snd (snd p))) else adj G (link_edge p))"
    using main [of "link_edge p"] by (simp add: link_step_adj)
  show "adj (fold (link_step sim threshold) ps G) (link_edge_rev p) =
           (if sim (snd (fst p)) (snd (snd p)) > threshold
            then Some (sim (snd (fst p)) (snd (snd p))) else adj G (link_edge_rev p))"
    using main [of "link_edge_rev p"] by (simp add: link_step_adj)
qed

lemma link_similar_documents_edge:
  assumes d: "distinct (map fst embs)" and sym: "\<forall>x y. sim x y = sim y x"
    and m: "(f1, e1) \<in> set embs" "(f2, e2) \<in> set embs" and ne: "f1 \<noteq> f2"
  shows "adj (link_similar_documents sim threshold embs G) (patent_node f1, patent_node f2) =
           (if sim e1 e2 > threshold then Some (sim e1 e2)
            else adj G (patent_node f1, patent_node f2))"
proof -
  have dd: "distinct (map (\<lambda>p. set (pair_ids p)) (combinations2 embs))"
    by (rule combinations2_pair_sets_distinct [OF d])
  from ne have "(f1, e1) \<noteq> (f2, e2)" by simp
  from combinations2_cover [OF m this]
  show ?thesis
  proof
    assume a: "((f1, e1), (f2, e2)) \<in> set (combinations2 embs)"
    from link_touched(1) [OF dd a, of sim threshold G]
    show ?thesis by (simp add: link_similar_documents_def link_edge_def)
  next
    assume a: "((f2, e2), (f1, e1)) \<in> set (combinations2 embs)"
    from link_touched(2) [OF dd a, of sim threshold G] sym
    show ?thesis by (simp add: link_similar_documents_def link_edge_rev_def)
  qed
qed

lemma add_top_edges_adj:
  assumes "\<forall>i \<in> set tops. i < length sims \<and> i < length goals"
    and "distinct (map fst (top_edges goals sims tops))"
  shows "\<exists>G'. add_top_edges goals sims f tops G = Inr G' \<and>
           (\<forall>e. adj G' e =
              (if fst e = patent_node f \<and> snd e \<in> fst ` set (top_edges goals sims tops)
               then map_of (top_edges goals sims tops) (snd e)
               else if snd e = patent_node f \<and> fst e \<in> fst ` set (top_edges goals sims tops)
               then map_of (top_edges goals sims tops) (fst e)
               else adj G e))"
  using assms
proof (induction tops arbitrary: G)
  case Nil
  then show ?case by (simp add: top_edges_def)
next
  case (Cons i tops)
  let ?G1 = "add_node G (patent_node f) [(''label'', f), (''type'', ''patent'')]"
  let ?G2 = "add_edge ?G1 (patent_node f) (node_id (goals ! i)) (sims ! i)"
  have v: "i < length sims \<and> i < length goals" using Cons.prems(1) by simp
  have r1: "\<forall>i \<in> set tops. i < length sims \<and> i < length goals" using Cons.prems(1) by simp
  have r2: "distinct (map fst (top_edges goals sims tops))"
    using Cons.prems(2) by (simp add: top_edges_def)
  have fresh: "node_id (goals ! i) \<notin> fst ` set (top_edges goals sims tops)"
    using Cons.prems(2) by (simp add: top_edges_def image_image)
  from Cons.IH [OF r1 r2, of ?G2] obtain G' where
    g: "add_top_edges goals sims f tops ?G2 = Inr G'"
    and a: "\<forall>e. adj G' e =
              (if fst e = patent_node f \<and> snd e \<in> fst ` set (top_edges goals sims tops)
               then map_of (top_edges goals sims tops) (snd e)
               else if snd e = patent_node f \<and> fst e \<in> fst ` set (top_edges goals sims tops)
               then map_of (top_edges goals sims tops) (fst e)
               else adj ?G2 e)"
    by blast
  have s: "add_top_edges goals sims f (i # tops) G = Inr G'"
    using v g by (simp add: Let_def)
  have te: "top_edges goals sims (i # tops) =
            (node_id (goals ! i), sims ! i) # top_edges goals sims tops"
    by (simp add: top_edges_def)
  have "adj G' e =
              (if fst e = patent_node f \<and> snd e \<in> fst ` set (top_edges goals sims (i # tops))
               then map_of (top_edges goals sims (i # tops)) (snd e)
               else if snd e = patent_node f \<and> fst e \<in> fst ` set (top_edges goals sims (i # tops))
               then map_of (top_edges goals sims (i # tops)) (fst e)
               else adj G e)" for e
  proof -
    obtain x y where e: "e = (x, y)" by (cases e)
    show ?thesis
      unfolding e using a [rule_format, of "(x, y)"] fresh
      by (auto simp: te adj_add_edge)
  qed
  with s show ?case by blast
qed

lemma top_indices_valid:
  assumes "argsort_ok argsort"
  shows "distinct (top_indices_of argsort top_k sims)"
    and "set (top_indices_of argsort top_k sims) \<subseteq> {0..<length sims}"
    and "length (top_indices_of argsort top_k sims) = min top_k (length sims)"
proof -
  have d: "distinct (argsort sims)" and s: "set (argsort sims) = {0..<length sims}"
    using assms by (simp_all add: argsort_ok_def)
  show "distinct (top_indices_of argsort top_k sims)"
    using d by (simp add: top_indices_of_def)
  show "set (top_indices_of argsort top_k sims) \<subseteq> {0..<length sims}"
  proof -
    have "set (take top_k (rev (argsort sims))) \<subseteq> set (rev (argsort sims))"
      by (rule set_take_subset)
    then show ?thesis using s by (simp add: top_indices_of_def)
  qed
  have "length (argsort sims) = card (set (argsort sims))"
    using d by (simp add: distinct_card)
  then have "length (argsort sims) = length sims" using s by simp
  then show "length (top_indices_of argsort top_k sims) = min top_k (length sims)"
    by (simp add: top_indices_of_def min.commute)
qed

lemma doc_edges_keys:
  "map fst (doc_edges encode sim argsort top_k goals t) =
   map (\<lambda>i. node_id (goals ! i)) (top_indices_of argsort top_k (doc_sims encode sim goals t))"
  by (simp add: doc_edges_def top_edges_def comp_def)

lemma doc_edges_distinct:
  assumes "argsort_ok argsort" and "distinct (map node_id goals)"
  shows "distinct (map fst (doc_edges encode sim argsort top_k goals t))"
proof -
  let ?sims = "doc_sims encode sim goals t"
  let ?tops = "top_indices_of argsort top_k ?sims"
  have n: "length ?sims = length goals" by (simp add: doc_sims_def)
  have v: "set ?tops \<subseteq> {0..<length goals}"
    using top_indices_valid(2) [OF assms(1), of top_k ?sims] n by simp
  have "inj_on (\<lambda>i. node_id (goals ! i)) (set ?tops)"
  proof (rule inj_onI)
    fix i j assume i: "i \<in> set ?tops" and j: "j \<in> set ?tops"
      and e: "node_id (goals ! i) = node_id (goals ! j)"
    have il: "i < length (map node_id goals)" and jl: "j < length (map node_id goals)"
      using v i j by auto
    have "map node_id goals ! i = map node_id goals ! j" using e il jl by simp
    with nth_eq_iff_index_eq [OF assms(2) il jl] show "i = j" by simp
  qed
  then show ?thesis
    unfolding doc_edges_keys
    using top_indices_valid(1) [OF assms(1), of top_k ?sims] by (simp add: distinct_map)
qed

lemma attach_documents_adj:
  assumes ok: "argsort_ok argsort" and ne: "goals \<noteq> []" and dg: "distinct (map node_id goals)"
    and dt: "distinct (map fst td)" and fr: "fst ` set td \<inter> fst ` set embs = {}"
  shows "\<exists>G'. attach_documents encode sim argsort top_k goals td (embs, G) =
                Inr (embs @ map (\<lambda>(f, t). (f, encode t)) td, G') \<and>
              adj G' = attach_adj encode sim argsort top_k goals td (adj G)"
  using dt fr
proof (induction td arbitrary: embs G)
  case Nil
  then show ?case by simp
next
  case (Cons ft td)
  obtain f t where ft: "ft = (f, t)" by (cases ft)
  let ?sims = "doc_sims encode sim goals t"
  let ?tops = "top_indices_of argsort top_k ?sims"
  have n: "length ?sims = length goals" by (simp add: doc_sims_def)
  have s: "sdg_similarities sim (encode t) (map (\<lambda>sdg. encode (description sdg)) goals) = Inr ?sims"
    using ne by (simp add: sdg_similarities_def doc_sims_def comp_def)
  have v: "\<forall>i \<in> set ?tops. i < length ?sims \<and> i < length goals"
    using top_indices_valid(2) [OF ok, of top_k ?sims] n by auto
  have d: "distinct (map fst (top_edges goals ?sims ?tops))"
    using doc_edges_distinct [OF ok dg, of encode sim top_k t] by (simp add: doc_edges_def)
  from add_top_edges_adj [OF v d, of f G] obtain G1 where
    g1: "add_top_edges goals ?sims f ?tops G = Inr G1"
    and a1: "adj G1 = doc_adj (doc_edges encode sim argsort top_k goals t) f (adj G)"
    by (auto simp: doc_adj_def doc_edges_def fun_eq_iff)
  have fresh: "f \<notin> fst ` set embs" using Cons.prems(2) ft by auto
  have upd: "AList.update f (encode t) embs = embs @ [(f, encode t)]"
    using fresh by (rule update_fresh)
  have dt': "distinct (map fst td)" using Cons.prems(1) by simp
  have fr': "fst ` set td \<inter> fst ` set (embs @ [(f, encode t)]) = {}"
    using Cons.prems ft by auto
  from Cons.IH [OF dt' fr', of G1] obtain G' where
    r: "attach_documents encode sim argsort top_k goals td (embs @ [(f, encode t)], G1) =
          Inr ((embs @ [(f, encode t)]) @ map (\<lambda>(f, t). (f, encode t)) td, G')"
    and a: "adj G' = attach_adj encode sim argsort top_k goals td (adj G1)"
    by blast
  have "attach_documents encode sim argsort top_k goals (ft # td) (embs, G) =
          Inr (embs @ map (\<lambda>(f, t). (f, encode t)) (ft # td), G')"
    using s g1 r upd by (simp add: ft Let_def)
  moreover have "adj G' = attach_adj encode sim argsort top_k goals (ft # td) (adj G)"
    using a a1 by (simp add: ft)
  ultimately show ?case by blast
qed

lemma take7_patent_node: "take 7 (patent_node f) = ''PATENT_''"
  by (simp add: patent_node_def)

lemma doc_adj_other:
  assumes "fst e \<noteq> patent_node f" "snd e \<noteq> patent_node f"
  shows "doc_adj edges f A e = A e"
  using assms by (simp add: doc_adj_def)

lemma attach_adj_untouched:
  assumes "\<forall>(f, t) \<in> set td. fst e \<noteq> patent_node f \<and> snd e \<noteq> patent_node f"
  shows "attach_adj encode sim argsort top_k goals td A e = A e"
  using assms
proof (induction td arbitrary: A)
  case Nil
  then show ?case by simp
next
  case (Cons ft td)
  obtain f t where ft: "ft = (f, t)" by (cases ft)
  have "attach_adj encode sim argsort top_k goals td
          (doc_adj (doc_edges encode sim argsort top_k goals t) f A) e =
        doc_adj (doc_edges encode sim argsort top_k goals t) f A e"
    using Cons.prems by (intro Cons.IH) simp
  also have "\<dots> = A e" using Cons.prems ft by (intro doc_adj_other) simp_all
  finally show ?case by (simp add: ft)
qed

lemma attach_adj_doc:
  assumes dt: "distinct (map fst td)" and m: "(f, t) \<in> set td"
    and s: "take 7 s \<noteq> ''PATENT_''"
  shows "attach_adj encode sim argsort top_k goals td A (patent_node f, s) =
           (if s \<in> fst ` set (doc_edges encode sim argsort top_k goals t)
            then map_of (doc_edges encode sim argsort top_k goals t) s
            else A (patent_node f, s))"
  using dt m
proof (induction td arbitrary: A)
  case Nil
  then show ?case by simp
next
  case (Cons ft td)
  obtain f' t' where ft: "ft = (f', t')" by (cases ft)
  have sp: "s \<noteq> patent_node g" for g using s take7_patent_node [of g] by auto
  show ?case
  proof (cases "f' = f")
    case True
    have notin: "f \<notin> fst ` set td" using Cons.prems(1) ft True by simp
    have tt: "t' = t"
    proof -
      from Cons.prems(2) ft True have "(f, t) = (f, t') \<or> (f, t) \<in> set td" by auto
      with notin show ?thesis by force
    qed
    have u: "\<forall>(g, x) \<in> set td. fst (patent_node f, s) \<noteq> patent_node g \<and>
                               snd (patent_node f, s) \<noteq> patent_node g"
      using notin sp by force
    have "attach_adj encode sim argsort top_k goals (ft # td) A (patent_node f, s) =
          doc_adj (doc_edges encode sim argsort top_k goals t) f A (patent_node f, s)"
      using attach_adj_untouched [OF u] by (simp add: ft True tt)
    then show ?thesis using sp by (simp add: doc_adj_def)
  next
    case False
    have m': "(f, t) \<in> set td" using Cons.prems(2) ft False by auto
    have dt': "distinct (map fst td)" using Cons.prems(1) by simp
    have o: "doc_adj (doc_edges encode sim argsort top_k goals t') f' A (patent_node f, s) =
             A (patent_node f, s)"
      using False sp by (intro doc_adj_other) simp_all
    show ?thesis
      using Cons.IH [OF dt' m', of "doc_adj (doc_edges encode sim argsort top_k goals t') f' A"] o
      by (simp add: ft)
  qed
qed

lemma attach_adj_patents:
  "attach_adj encode sim argsort top_k goals td A (patent_node a, patent_node b) =
     (if \<exists>(f, t) \<in> set td. (f = a \<and> patent_node b \<in> fst ` set (doc_edges encode sim argsort top_k goals t))
                         \<or> (f = b \<and> patent_node a \<in> fst ` set (doc_edges encode sim argsort top_k goals t))
      then attach_adj encode sim argsort top_k goals td A (patent_node a, patent_node b)
      else A (patent_node a, patent_node b))"
proof (induction td arbitrary: A)
  case Nil
  then show ?case by simp
next
  case (Cons ft td)
  obtain f t where ft: "ft = (f, t)" by (cases ft)
  show ?case
  proof (cases "\<exists>(f, t) \<in> set (ft # td). (f = a \<and> patent_node b \<in> fst ` set (doc_edges encode sim argsort top_k goals t))
                         \<or> (f = b \<and> patent_node a \<in> fst ` set (doc_edges encode sim argsort top_k goals t))")
    case True
    then show ?thesis by simp
  next
    case False
    then have h: "\<not> (f = a \<and> patent_node b \<in> fst ` set (doc_edges encode sim argsort top_k goals t))"
      "\<not> (f = b \<and> patent_node a \<in> fst ` set (doc_edges encode sim argsort top_k goals t))"
      and r: "\<not> (\<exists>(f, t) \<in> set td. (f = a \<and> patent_node b \<in> fst ` set (doc_edges encode sim argsort top_k goals t))
                         \<or> (f = b \<and> patent_node a \<in> fst ` set (doc_edges encode sim argsort top_k goals t)))"
      using ft by auto
    have "doc_adj (doc_edges encode sim argsort top_k goals t) f A (patent_node a, patent_node b) =
          A (patent_node a, patent_node b)"
      using h by (auto simp: doc_adj_def)
    with Cons.IH [of "doc_adj (doc_edges encode sim argsort top_k goals t) f A"] r False
    show ?thesis by (simp add: ft)
  qed
qed

lemma doc_edges_ids:
  assumes "argsort_ok argsort"
  shows "fst ` set (doc_edges encode sim argsort top_k goals t) \<subseteq> node_id ` set goals"
proof -
  let ?sims = "doc_sims encode sim goals t"
  have n: "length ?sims = length goals" by (simp add: doc_sims_def)
  have v: "set (top_indices_of argsort top_k ?sims) \<subseteq> {0..<length goals}"
    using top_indices_valid(2) [OF assms, of top_k ?sims] n by simp
  have "set (map fst (doc_edges encode sim argsort top_k goals t)) \<subseteq> node_id ` set goals"
    unfolding doc_edges_keys using v by auto
  then show ?thesis by simp
qed

lemma attach_adj_no_patent_edges:
  assumes ok: "argsort_ok argsort" and p: "\<forall>s \<in> set goals. take 7 (node_id s) \<noteq> ''PATENT_''"
  shows "attach_adj encode sim argsort top_k goals td A (patent_node a, patent_node b) =
         A (patent_node a, patent_node b)"
proof -
  have "patent_node x \<notin> fst ` set (doc_edges encode sim argsort top_k goals t)" for x t
  proof
    assume "patent_node x \<in> fst ` set (doc_edges encode sim argsort top_k goals t)"
    with doc_edges_ids [OF ok] have "patent_node x \<in> node_id ` set goals" by blast
    then obtain s where "s \<in> set goals" "node_id s = patent_node x" by auto
    with p take7_patent_node [of x] show False by auto
  qed
  then show ?thesis by (subst attach_adj_patents) auto
qed

lemma adj_fold_add_node:
  "adj (fold (\<lambda>x G. add_node G (k x) (a x)) xs G) = adj G"
  by (induction xs arbitrary: G) simp_all

lemma adj_initial_graph: "adj (tag_sdgs goals (build_sdg_graph goals)) = Map.empty"
  by (simp add: tag_sdgs_def build_sdg_graph_def adj_fold_add_node empty_graph_def)

lemma document_graph_adj:
  assumes ok: "argsort_ok argsort" and ne: "goals \<noteq> []" and dg: "distinct (map node_id goals)"
    and dt: "distinct (map fst td)"
  shows "\<exists>G1. document_graph encode sim argsort top_k threshold goals td =
            Inr (map (\<lambda>(f, t). (f, encode t)) td,
                 link_similar_documents sim threshold (map (\<lambda>(f, t). (f, encode t)) td) G1) \<and>
           adj G1 = attach_adj encode sim argsort top_k goals td Map.empty"
proof -
  have fr: "fst ` set td \<inter> fst ` set ([] :: (doc_id \<times> vec) list) = {}" by simp
  from attach_documents_adj [OF ok ne dg dt fr, of encode sim top_k
      "tag_sdgs goals (build_sdg_graph goals)"]
  obtain G1 where
    a: "attach_documents encode sim argsort top_k goals td
          ([], tag_sdgs goals (build_sdg_graph goals)) =
        Inr (map (\<lambda>(f, t). (f, encode t)) td, G1)"
    and b: "adj G1 = attach_adj encode sim argsort top_k goals td
              (adj (tag_sdgs goals (build_sdg_graph goals)))"
    by auto
  from a b show ?thesis by (auto simp: document_graph_def adj_initial_graph)
qed

lemma encoded_keys: "map fst (map (\<lambda>(f, t). (f, encode t)) td) = map fst td"
  by (induction td) auto

lemma encoded_member: "(f, t) \<in> set td \<Longrightarrow> (f, encode t) \<in> set (map (\<lambda>(f, t). (f, encode t)) td)"
  by (induction td) auto

lemma link_domain:
  "dom (adj (fold (link_step sim threshold) ps G)) =
   dom (adj G) \<union> {e. \<exists>p \<in> set ps. sim (snd (fst p)) (snd (snd p)) > threshold \<and>
                      (e = link_edge p \<or> e = link_edge_rev p)}"
proof (induction ps arbitrary: G)
  case Nil
  then show ?case by simp
next
  case (Cons p ps)
  have "dom (adj (link_step sim threshold p G)) =
        dom (adj G) \<union> {e. sim (snd (fst p)) (snd (snd p)) > threshold \<and>
                      (e = link_edge p \<or> e = link_edge_rev p)}"
    by (auto simp: link_step_adj)
  with Cons.IH [of "link_step sim threshold p G"] show ?case by auto
qed

text \<open>
  Claim C8. For the same embeddings and the same starting graph, every edge that the
  document-document loop leaves in the graph at a threshold \<open>t\<close> is also there at any
  threshold \<open>t' \<le> t\<close>: lowering the threshold only adds edges.
\<close>

theorem lowering_threshold_only_adds_edges:
  assumes "t' \<le> t"
  shows "\<forall>u v. has_edge (link_similar_documents sim t patent_embeddings full_G) u v \<longrightarrow>
               has_edge (link_similar_documents sim t' patent_embeddings full_G) u v"
proof (intro allI impI)
  fix u v
  assume "has_edge (link_similar_documents sim t patent_embeddings full_G) u v"
  then have "(u, v) \<in> dom (adj (fold (link_step sim t) (combinations2 patent_embeddings) full_G))"
    by (auto simp: has_edge_def link_similar_documents_def)
  then have "(u, v) \<in> dom (adj (fold (link_step sim t') (combinations2 patent_embeddings) full_G))"
    unfolding link_domain using assms by fastforce
  then show "has_edge (link_similar_documents sim t' patent_embeddings full_G) u v"
    by (auto simp: has_edge_def link_similar_documents_def)
qed

theorem lowering_threshold_only_adds_edges_witness:
  "(1/20 :: real) \<le> 3/10 \<and>
   has_edge (link_similar_documents inner_product (3/10) abc_batch empty_graph)
     ''PATENT_A'' ''PATENT_B'' \<and>
   has_edge (link_similar_documents inner_product (1/20) abc_batch empty_graph)
     ''PATENT_A'' ''PATENT_B'' \<and>
   \<not> has_edge (link_similar_documents inner_product (3/10) abc_batch empty_graph)
     ''PATENT_A'' ''PATENT_C'' \<and>
   has_edge (link_similar_documents inner_product (1/20) abc_batch empty_graph)
     ''PATENT_A'' ''PATENT_C''"
proof -
  have le: "(1/20 :: real) \<le> 3/10" by simp
  have h1: "has_edge (link_similar_documents inner_product (3/10) abc_batch empty_graph)
     ''PATENT_A'' ''PATENT_B''"
    by (simp add: has_edge_def link_similar_documents_def abc_batch_def inner_product_def
        adj_add_edge patent_node_def)
  have h2: "has_edge (link_similar_documents inner_product (1/20) abc_batch empty_graph)
     ''PATENT_A'' ''PATENT_B''"
    using lowering_threshold_only_adds_edges [OF le, rule_format, OF h1] .
  have h3: "\<not> has_edge (link_similar_documents inner_product (3/10) abc_batch empty_graph)
     ''PATENT_A'' ''PATENT_C''"
    by (simp add: has_edge_def link_similar_documents_def abc_batch_def inner_product_def
        adj_add_edge patent_node_def empty_graph_def)
  have h4: "has_edge (link_similar_documents inner_product (1/20) abc_batch empty_graph)
     ''PATENT_A'' ''PATENT_C''"
    by (simp add: has_edge_def link_similar_documents_def abc_batch_def inner_product_def
        adj_add_edge patent_node_def)
  from le h1 h2 h3 h4 show ?thesis by (intro conjI)
qed

lemma edge_batch_cosine: "cosine [1, 0, 0, 0, 0] [3/4, 1/2, 1/4, 1/4, 1/4] = 3/4"
  by (simp add: cosine_def inner_product_def)

text \<open>
  Claim C4, as stated, fails at a similarity equal to the threshold: the comparison of
  the loop is strict, so two documents whose cosine similarity is exactly \<open>3/4\<close> (two
  unit vectors with inner product \<open>3/4\<close>) get no edge.
\<close>

theorem edge_at_threshold_counterexample:
  "cosine [1, 0, 0, 0, 0] [3/4, 1/2, 1/4, 1/4, 1/4] = 3/4 \<and>
   cosine [1, 0, 0, 0, 0] [3/4, 1/2, 1/4, 1/4, 1/4] \<ge> 3/4 \<and>
   \<not> has_edge (link_similar_documents cosine (3/4) edge_batch empty_graph)
       ''PATENT_A'' ''PATENT_B''"
  by (simp add: has_edge_def link_similar_documents_def edge_batch_def edge_batch_cosine
      empty_graph_def)

text \<open>
  Claim C4, amended. In the graph of the handler, two distinct documents of the batch are
  joined by an edge if and only if the similarity of their embeddings is strictly greater
  than the threshold (fixed to 0.75 in the application), and the weight of that edge is
  the similarity. The goals are a non-empty list with distinct ids, none of which starts
  with \<open>PATENT_\<close>, as in \<open>sdg_list.py\<close>; the similarity is symmetric.
\<close>

theorem document_edge_iff_above_threshold:
  assumes ok: "argsort_ok argsort" and ne: "goals \<noteq> []" and dg: "distinct (map node_id goals)"
    and pf: "\<forall>s \<in> set goals. take 7 (node_id s) \<noteq> ''PATENT_''"
    and dt: "distinct (map fst text_data)"
    and sym: "\<forall>x y. sim x y = sim y x"
    and m1: "(f1, t1) \<in> set text_data" and m2: "(f2, t2) \<in> set text_data" and d: "f1 \<noteq> f2"
  shows "\<exists>patent_embeddings full_G.
           document_graph encode sim argsort top_k threshold goals text_data =
             Inr (patent_embeddings, full_G) \<and>
           (has_edge full_G (patent_node f1) (patent_node f2) \<longleftrightarrow>
              sim (encode t1) (encode t2) > threshold) \<and>
           (has_edge full_G (patent_node f1) (patent_node f2) \<longrightarrow>
              adj full_G (patent_node f1, patent_node f2) = Some (sim (encode t1) (encode t2)))"
proof -
  let ?embs = "map (\<lambda>(f, t). (f, encode t)) text_data"
  from document_graph_adj [OF ok ne dg dt, of encode sim top_k threshold] obtain G1 where
    g: "document_graph encode sim argsort top_k threshold goals text_data =
          Inr (?embs, link_similar_documents sim threshold ?embs G1)"
    and a: "adj G1 = attach_adj encode sim argsort top_k goals text_data Map.empty"
    by blast
  have none: "adj G1 (patent_node f1, patent_node f2) = None"
    unfolding a by (simp add: attach_adj_no_patent_edges [OF ok pf])
  have de: "distinct (map fst ?embs)" using dt by (simp only: encoded_keys)
  have e: "adj (link_similar_documents sim threshold ?embs G1) (patent_node f1, patent_node f2) =
           (if sim (encode t1) (encode t2) > threshold then Some (sim (encode t1) (encode t2))
            else None)"
    using link_similar_documents_edge [OF de sym encoded_member [OF m1] encoded_member [OF m2] d,
        of threshold G1] none by simp
  from g e show ?thesis by (auto simp: has_edge_def)
qed

lemma stable_argsort_ok: "argsort_ok stable_argsort"
  by (simp add: argsort_ok_def stable_argsort_def sorted_sort_key)

lemma top_indices_dominate:
  assumes ok: "argsort_ok argsort"
    and i: "i \<in> set (top_indices_of argsort top_k sims)"
    and j: "j < length sims" "j \<notin> set (top_indices_of argsort top_k sims)"
  shows "sims ! j \<le> sims ! i"
proof -
  let ?as = "argsort sims"
  let ?L = "rev ?as"
  have s: "set ?as = {0..<length sims}" and so: "sorted (map (\<lambda>i. sims ! i) ?as)"
    using ok by (simp_all add: argsort_ok_def)
  have "j \<in> set ?L" using s j(1) by simp
  then have "j \<in> set (take top_k ?L) \<union> set (drop top_k ?L)"
    by (metis append_take_drop_id set_append)
  with j(2) have jd: "j \<in> set (drop top_k ?L)" by (simp add: top_indices_of_def)
  have it: "i \<in> set (take top_k ?L)" using i by (simp add: top_indices_of_def)
  have "?as = rev (drop top_k ?L) @ rev (take top_k ?L)"
    by (metis append_take_drop_id rev_append rev_rev_ident)
  then have "sorted (map (\<lambda>i. sims ! i) (rev (drop top_k ?L)) @
                     map (\<lambda>i. sims ! i) (rev (take top_k ?L)))"
    using so by (metis map_append)
  then have "\<forall>x \<in> set (map (\<lambda>i. sims ! i) (rev (drop top_k ?L))).
             \<forall>y \<in> set (map (\<lambda>i. sims ! i) (rev (take top_k ?L))). x \<le> y"
    by (simp only: sorted_append) blast
  then show ?thesis using jd it by simp
qed

lemma top_indices_descending:
  assumes ok: "argsort_ok argsort"
  shows "sorted (rev (map (\<lambda>i. sims ! i) (top_indices_of argsort top_k sims)))"
proof -
  have so: "sorted (map (\<lambda>i. sims ! i) (argsort sims))"
    using ok by (simp add: argsort_ok_def)
  have "rev (map (\<lambda>i. sims ! i) (take top_k (rev (argsort sims)))) =
        drop (length (argsort sims) - top_k) (map (\<lambda>i. sims ! i) (argsort sims))"
    by (simp add: take_rev rev_map [symmetric] drop_map)
  then show ?thesis using so by (simp add: top_indices_of_def sorted_wrt_drop)
qed

lemma document_graph_taxonomy_edges:
  assumes ok: "argsort_ok argsort" and ne: "goals \<noteq> []" and dg: "distinct (map node_id goals)"
    and pf: "\<forall>s \<in> set goals. take 7 (node_id s) \<noteq> ''PATENT_''"
    and dt: "distinct (map fst text_data)"
    and m: "(f, t) \<in> set text_data"
  shows "\<exists>patent_embeddings full_G.
           document_graph encode sim argsort top_k threshold goals text_data =
             Inr (patent_embeddings, full_G) \<and>
           (\<forall>s \<in> node_id ` set goals.
              adj full_G (patent_node f, s) =
                (if s \<in> fst ` set (doc_edges encode sim argsort top_k goals t)
                 then map_of (doc_edges encode sim argsort top_k goals t) s else None))"
proof -
  let ?embs = "map (\<lambda>(f, t). (f, encode t)) text_data"
  from document_graph_adj [OF ok ne dg dt, of encode sim top_k threshold] obtain G1 where
    g: "document_graph encode sim argsort top_k threshold goals text_data =
          Inr (?embs, link_similar_documents sim threshold ?embs G1)"
    and a: "adj G1 = attach_adj encode sim argsort top_k goals text_data Map.empty"
    by blast
  have "adj (link_similar_documents sim threshold ?embs G1) (patent_node f, s) =
          (if s \<in> fst ` set (doc_edges encode sim argsort top_k goals t)
           then map_of (doc_edges encode sim argsort top_k goals t) s else None)"
    if s: "s \<in> node_id ` set goals" for s
  proof -
    have sp: "take 7 s \<noteq> ''PATENT_''" using s pf by auto
    have sn: "s \<noteq> patent_node g" for g using sp take7_patent_node [of g] by auto
    have u: "\<forall>p \<in> set (combinations2 ?embs).
               (patent_node f, s) \<noteq> link_edge p \<and> (patent_node f, s) \<noteq> link_edge_rev p"
      using sn by (auto simp: link_edge_def link_edge_rev_def)
    have "adj (link_similar_documents sim threshold ?embs G1) (patent_node f, s) =
          adj G1 (patent_node f, s)"
      unfolding link_similar_documents_def using u by (rule link_untouched)
    also have "\<dots> = (if s \<in> fst ` set (doc_edges encode sim argsort top_k goals t)
           then map_of (doc_edges encode sim argsort top_k goals t) s else None)"
      unfolding a using attach_adj_doc [OF dt m sp] by simp
    finally show ?thesis .
  qed
  with g show ?thesis by blast
qed

lemma doc_edges_lookup:
  assumes ok: "argsort_ok argsort" and dg: "distinct (map node_id goals)"
    and i: "i \<in> set (top_indices_of argsort top_k (doc_sims encode sim goals t))"
  shows "map_of (doc_edges encode sim argsort top_k goals t) (node_id (goals ! i)) =
         Some (doc_sims encode sim goals t ! i)"
proof -
  have "(node_id (goals ! i), doc_sims encode sim goals t ! i) \<in>
        set (doc_edges encode sim argsort top_k goals t)"
    using i by (auto simp: doc_edges_def top_edges_def)
  with doc_edges_distinct [OF ok dg] show ?thesis by (intro map_of_is_SomeI)
qed

text \<open>
  Claim C6, amended. For every document of the batch, the goals joined to it by an edge
  are those at the indices \<open>argsort()[::-1][:top_k]\<close> of its similarity scores (\<open>top_k = 5\<close> in
  the application): they are \<open>min(top_k, number of goals)\<close> goals with distinct ids, every
  selected score is at least every score left out, the selection is listed in descending
  order of score, and the weight of each edge is the score itself, not clamped. Which of
  several goals with equal scores is selected is decided by the order \<open>argsort\<close> gives
  them, reversed; nothing is claimed about it.
\<close>

theorem taxonomy_edges_are_top_k:
  assumes ok: "argsort_ok argsort" and ne: "goals \<noteq> []" and dg: "distinct (map node_id goals)"
    and pf: "\<forall>s \<in> set goals. take 7 (node_id s) \<noteq> ''PATENT_''"
    and dt: "distinct (map fst text_data)"
    and m: "(f, t) \<in> set text_data"
  shows "\<exists>patent_embeddings full_G sims tops.
           document_graph encode sim argsort top_k threshold goals text_data =
             Inr (patent_embeddings, full_G) \<and>
           sims = map (\<lambda>s. sim (encode t) (encode (description s))) goals \<and>
           tops = top_indices_of argsort top_k sims \<and>
           {s \<in> node_id ` set goals. has_edge full_G (patent_node f) s} =
             (\<lambda>i. node_id (goals ! i)) ` set tops \<and>
           card {s \<in> node_id ` set goals. has_edge full_G (patent_node f) s} =
             min top_k (length goals) \<and>
           distinct (map (\<lambda>i. node_id (goals ! i)) tops) \<and>
           (\<forall>i \<in> set tops. i < length goals \<and>
              adj full_G (patent_node f, node_id (goals ! i)) = Some (sims ! i)) \<and>
           (\<forall>i \<in> set tops. \<forall>j<length goals. j \<notin> set tops \<longrightarrow> sims ! j \<le> sims ! i) \<and>
           sorted (rev (map (\<lambda>i. sims ! i) tops))"
proof -
  let ?sims = "doc_sims encode sim goals t"
  let ?tops = "top_indices_of argsort top_k ?sims"
  let ?E = "doc_edges encode sim argsort top_k goals t"
  let ?K = "(\<lambda>i. node_id (goals ! i)) ` set ?tops"
  from document_graph_taxonomy_edges [OF ok ne dg pf dt m, of encode sim top_k threshold]
  obtain pe G where
    g: "document_graph encode sim argsort top_k threshold goals text_data = Inr (pe, G)"
    and a: "\<forall>s \<in> node_id ` set goals.
              adj G (patent_node f, s) = (if s \<in> fst ` set ?E then map_of ?E s else None)"
    by blast
  have n: "length ?sims = length goals" by (simp add: doc_sims_def)
  have keys: "fst ` set ?E = ?K"
    using doc_edges_keys [of encode sim argsort top_k goals t]
    by (metis list.set_map)
  have sub: "?K \<subseteq> node_id ` set goals" using doc_edges_ids [OF ok] keys by metis
  have dk: "distinct (map (\<lambda>i. node_id (goals ! i)) ?tops)"
    using doc_edges_distinct [OF ok dg, of encode sim top_k t] by (simp only: doc_edges_keys)
  have edge: "has_edge G (patent_node f) s \<longleftrightarrow> s \<in> ?K" if "s \<in> node_id ` set goals" for s
  proof -
    have as: "adj G (patent_node f, s) = (if s \<in> fst ` set ?E then map_of ?E s else None)"
      using a that by blast
    show ?thesis
    proof (cases "s \<in> fst ` set ?E")
      case True
      then have "map_of ?E s \<noteq> None" by (simp add: map_of_eq_None_iff)
      with as True keys show ?thesis by (simp add: has_edge_def)
    next
      case False
      with as keys show ?thesis by (simp add: has_edge_def)
    qed
  qed
  have set_eq: "{s \<in> node_id ` set goals. has_edge G (patent_node f) s} = ?K"
    using edge sub by blast
  have "card ?K = length (map (\<lambda>i. node_id (goals ! i)) ?tops)"
    using dk by (metis distinct_card list.set_map)
  also have "\<dots> = min top_k (length goals)"
    using top_indices_valid(3) [OF ok, of top_k ?sims] n by simp
  finally have card_eq: "card {s \<in> node_id ` set goals. has_edge G (patent_node f) s} =
      min top_k (length goals)" using set_eq by simp
  have w: "\<forall>i \<in> set ?tops. i < length goals \<and>
              adj G (patent_node f, node_id (goals ! i)) = Some (?sims ! i)"
  proof
    fix i assume i: "i \<in> set ?tops"
    have il: "i < length goals" using top_indices_valid(2) [OF ok, of top_k ?sims] i n by auto
    have k: "node_id (goals ! i) \<in> ?K" using i by blast
    then have "node_id (goals ! i) \<in> node_id ` set goals" using sub by blast
    with a have "adj G (patent_node f, node_id (goals ! i)) =
        (if node_id (goals ! i) \<in> fst ` set ?E then map_of ?E (node_id (goals ! i)) else None)"
      by blast
    with k keys have "adj G (patent_node f, node_id (goals ! i)) = map_of ?E (node_id (goals ! i))"
      by simp
    with doc_edges_lookup [OF ok dg i] il
    show "i < length goals \<and> adj G (patent_node f, node_id (goals ! i)) = Some (?sims ! i)"
      by simp
  qed
  have dom: "\<forall>i \<in> set ?tops. \<forall>j<length goals. j \<notin> set ?tops \<longrightarrow> ?sims ! j \<le> ?sims ! i"
    using top_indices_dominate [OF ok] n by auto
  have desc: "sorted (rev (map (\<lambda>i. ?sims ! i) ?tops))" by (rule top_indices_descending [OF ok])
  have sd: "?sims = map (\<lambda>s. sim (encode t) (encode (description s))) goals"
    by (simp add: doc_sims_def)
  from g sd set_eq card_eq dk w dom desc show ?thesis by blast
qed

lemma sdgs_facts:
  "sdgs \<noteq> []" "distinct (map node_id sdgs)" "\<forall>s \<in> set sdgs. take 7 (node_id s) \<noteq> ''PATENT_''"
  "length sdgs = 17"
  by (simp_all add: sdgs_def)

lemma six_goals_facts:
  "six_goals \<noteq> []" "distinct (map node_id six_goals)"
  "\<forall>s \<in> set six_goals. take 7 (node_id s) \<noteq> ''PATENT_''"
  "map node_id six_goals = [''SDG1'', ''SDG2'', ''SDG3'', ''SDG4'', ''SDG5'', ''SDG6'']"
  by (simp_all add: six_goals_def sdgs_def)

lemma parity_cosine:
  "cosine [1, 0] [1, 0] = 1" "cosine [1, 0] [3/5, 4/5] = 3/5"
  by (simp_all add: cosine_def inner_product_def)

lemma six_descriptions:
  "map (\<lambda>s. even (length (description s))) six_goals = [True, False, True, False, True, False]"
  by (simp add: six_goals_def sdgs_def)

lemma tied_sims:
  "doc_sims parity_encode cosine six_goals ''text'' = [1, 3/5, 1, 3/5, 1, 3/5]"
proof -
  have "doc_sims parity_encode cosine six_goals ''text'' =
        map (\<lambda>e. if e then cosine [1, 0] [1, 0] else cosine [1, 0] [3/5, 4/5])
            (map (\<lambda>s. even (length (description s))) six_goals)"
    by (simp add: doc_sims_def parity_encode_def comp_def if_distrib)
  then show ?thesis unfolding six_descriptions by (simp add: parity_cosine)
qed

lemma tied_tops:
  "top_indices_of stable_argsort 5 [1, 3/5, 1, 3/5, 1, 3/5] = [4, 2, 0, 5, 3]"
  by (simp add: top_indices_of_def stable_argsort_def upt_rec_numeral)

lemma tied_edges:
  "map fst (doc_edges parity_encode cosine stable_argsort 5 six_goals ''text'') =
     [''SDG5'', ''SDG3'', ''SDG1'', ''SDG6'', ''SDG4'']"
proof -
  have "map fst (doc_edges parity_encode cosine stable_argsort 5 six_goals ''text'') =
        map (\<lambda>i. map node_id six_goals ! i) [4, 2, 0, 5, 3]"
    unfolding doc_edges_keys tied_sims tied_tops by (simp add: six_goals_def sdgs_def)
  then show ?thesis by (simp add: six_goals_facts(4))
qed

text \<open>
  Claim C6, as stated, fails on ties. One text against the first six goals, scored by the
  cosine similarity of their \<open>parity_encode\<close> vectors: the scores are
  \<open>[1, 3/5, 1, 3/5, 1, 3/5]\<close>, so the second, fourth and sixth goal are tied for the last
  two of the \<open>top_k = 5\<close> places. Breaking the tie by insertion order would keep the second
  goal and drop the sixth; with the indices sorted by a stable \<open>argsort\<close> (what NumPy
  does on short arrays) the reversed order \<open>[::-1]\<close> of the source keeps the sixth goal
  and drops the second.
\<close>

theorem tie_order_counterexample:
  "doc_sims parity_encode cosine six_goals ''text'' ! 1 =
   doc_sims parity_encode cosine six_goals ''text'' ! 5 \<and>
   node_id (six_goals ! 1) = ''SDG2'' \<and> node_id (six_goals ! 5) = ''SDG6'' \<and>
   has_edge (result_graph (document_graph parity_encode cosine stable_argsort 5 (3/4)
               six_goals tied_texts)) ''PATENT_A'' ''SDG6'' \<and>
   \<not> has_edge (result_graph (document_graph parity_encode cosine stable_argsort 5 (3/4)
               six_goals tied_texts)) ''PATENT_A'' ''SDG2''"
proof -
  let ?E = "doc_edges parity_encode cosine stable_argsort 5 six_goals ''text''"
  have dt: "distinct (map fst tied_texts)" and m: "(''A'', ''text'') \<in> set tied_texts"
    by (simp_all add: tied_texts_def)
  from document_graph_taxonomy_edges [OF stable_argsort_ok six_goals_facts(1,2,3) dt m,
      of parity_encode cosine 5 "3/4"]
  obtain pe G where
    g: "document_graph parity_encode cosine stable_argsort 5 (3/4) six_goals tied_texts =
          Inr (pe, G)"
    and a: "\<forall>s \<in> node_id ` set six_goals.
              adj G (patent_node ''A'', s) = (if s \<in> fst ` set ?E then map_of ?E s else None)"
    by blast
  have r: "result_graph (document_graph parity_encode cosine stable_argsort 5 (3/4)
               six_goals tied_texts) = G"
    by (simp add: g result_graph_def)
  have ids: "node_id ` set six_goals = {''SDG1'', ''SDG2'', ''SDG3'', ''SDG4'', ''SDG5'', ''SDG6''}"
    using six_goals_facts(4) by (metis list.set_map list.simps(15) set_empty2 empty_set)
  have keys: "fst ` set ?E = {''SDG5'', ''SDG3'', ''SDG1'', ''SDG6'', ''SDG4''}"
    using tied_edges by (metis list.set_map list.simps(15) empty_set)
  have a2: "adj G (patent_node ''A'', ''SDG2'') = None"
    using a ids keys by simp
  have "adj G (patent_node ''A'', ''SDG6'') = map_of ?E ''SDG6''"
    using a ids keys by simp
  moreover have "map_of ?E ''SDG6'' \<noteq> None"
    using keys by (simp add: map_of_eq_None_iff)
  ultimately have a6: "adj G (patent_node ''A'', ''SDG6'') \<noteq> None" by simp
  have s: "doc_sims parity_encode cosine six_goals ''text'' ! 1 =
           doc_sims parity_encode cosine six_goals ''text'' ! 5"
    by (simp add: tied_sims)
  have n: "node_id (six_goals ! 1) = ''SDG2''" "node_id (six_goals ! 5) = ''SDG6''"
    by (simp_all add: six_goals_def sdgs_def)
  have p: "patent_node ''A'' = ''PATENT_A''" by (simp add: patent_node_def)
  from s n a2 a6 show ?thesis unfolding r by (simp add: has_edge_def p)
qed

theorem taxonomy_edges_are_top_k_witness:
  "argsort_ok stable_argsort \<and> sdgs \<noteq> [] \<and> distinct (map node_id sdgs) \<and>
   distinct (map fst three_texts) \<and> (''B'', ''wind turbine'') \<in> set three_texts \<and>
   min 5 (length sdgs) = 5 \<and>
   (\<exists>patent_embeddings full_G sims tops.
           document_graph parity_encode inner_product stable_argsort 5 (3/4) sdgs three_texts =
             Inr (patent_embeddings, full_G) \<and>
           sims = map (\<lambda>s. inner_product (parity_encode ''wind turbine'')
                             (parity_encode (description s))) sdgs \<and>
           tops = top_indices_of stable_argsort 5 sims \<and>
           {s \<in> node_id ` set sdgs. has_edge full_G (patent_node ''B'') s} =
             (\<lambda>i. node_id (sdgs ! i)) ` set tops \<and>
           card {s \<in> node_id ` set sdgs. has_edge full_G (patent_node ''B'') s} =
             min 5 (length sdgs) \<and>
           distinct (map (\<lambda>i. node_id (sdgs ! i)) tops) \<and>
           (\<forall>i \<in> set tops. i < length sdgs \<and>
              adj full_G (patent_node ''B'', node_id (sdgs ! i)) = Some (sims ! i)) \<and>
           (\<forall>i \<in> set tops. \<forall>j<length sdgs. j \<notin> set tops \<longrightarrow> sims ! j \<le> sims ! i) \<and>
           sorted (rev (map (\<lambda>i. sims ! i) tops)))"
proof -
  have dt: "distinct (map fst three_texts)" and m: "(''B'', ''wind turbine'') \<in> set three_texts"
    by (simp_all add: three_texts_def)
  have k: "min 5 (length sdgs) = 5" by (simp add: sdgs_facts(4))
  from taxonomy_edges_are_top_k [OF stable_argsort_ok sdgs_facts(1,2,3) dt m,
      of parity_encode inner_product 5 "3/4"]
    stable_argsort_ok sdgs_facts(1,2) dt m k
  show ?thesis by (intro conjI)
qed

theorem document_edge_iff_above_threshold_witness:
  "argsort_ok stable_argsort \<and> sdgs \<noteq> [] \<and> distinct (map node_id sdgs) \<and>
   distinct (map fst three_texts) \<and>
   (''A'', ''solar panel'') \<in> set three_texts \<and> (''C'', ''tidal power'') \<in> set three_texts \<and>
   ''A'' \<noteq> ''C'' \<and>
   inner_product (parity_encode ''solar panel'') (parity_encode ''tidal power'') = 1 \<and>
   (\<exists>patent_embeddings full_G.
           document_graph parity_encode inner_product stable_argsort 5 (3/4) sdgs three_texts =
             Inr (patent_embeddings, full_G) \<and>
           (has_edge full_G (patent_node ''A'') (patent_node ''C'') \<longleftrightarrow>
              inner_product (parity_encode ''solar panel'') (parity_encode ''tidal power'') > 3/4) \<and>
           (has_edge full_G (patent_node ''A'') (patent_node ''C'') \<longrightarrow>
              adj full_G (patent_node ''A'', patent_node ''C'') =
                Some (inner_product (parity_encode ''solar panel'') (parity_encode ''tidal power''))))"
proof -
  have dt: "distinct (map fst three_texts)"
    and m1: "(''A'', ''solar panel'') \<in> set three_texts"
    and m2: "(''C'', ''tidal power'') \<in> set three_texts"
    by (simp_all add: three_texts_def)
  have ne: "''A'' \<noteq> ''C''" by simp
  have sym: "\<forall>x y. inner_product x y = inner_product y x" using inner_product_commute by blast
  have v: "inner_product (parity_encode ''solar panel'') (parity_encode ''tidal power'') = 1"
    by (simp add: inner_product_def parity_encode_def)
  from document_edge_iff_above_threshold [OF stable_argsort_ok sdgs_facts(1,2,3) dt sym m1 m2 ne,
      of parity_encode 5 "3/4"]
    stable_argsort_ok sdgs_facts(1,2) dt m1 m2 ne v
  show ?thesis by (intro conjI)
qed

section \<open>Narrative synthesis on an empty text group\<close>

lemma fit_transform_no_texts:
  "fit_transform lib [] =
     Inl (ValueError ''empty vocabulary; perhaps the documents only contain stop words'')"
  by (simp add: fit_transform_def)

lemma extract_keywords_no_texts:
  "extract_keywords lib [] max_keywords =
     Inl (ValueError ''empty vocabulary; perhaps the documents only contain stop words'')"
  by (simp add: extract_keywords_def fit_transform_no_texts)

lemma opportunity_fields_no_keywords:
  assumes "extract_keywords lib (map (clean_text lib) patent_texts) 5 = Inr []"
  shows "opportunity_fields lib patent_texts =
     Inr \<lparr>opp_name = ''Sustainable Opportunity'',
          opp_description =
            ''This innovation addresses sustainability challenges through a novel approach. Summary: ''
            @ summarize_text lib (join '' '' (map (clean_text lib) patent_texts)) 3\<rparr>"
  using assms by (simp add: opportunity_fields_def compose_description_def Let_def)

text \<open>
  Claim C5. On an empty text group \<open>describe_opportunity\<close> does not reach its fallback
  name and description: \<open>extract_keywords\<close> hands the empty list to the vectoriser, whose
  \<open>ValueError\<close> (empty vocabulary) is caught nowhere and leaves \<open>describe_opportunity\<close>.
\<close>

theorem describe_opportunity_empty_group_raises:
  "describe_opportunity lib [] =
     Inl (ValueError ''empty vocabulary; perhaps the documents only contain stop words'')"
  by (simp add: describe_opportunity_def opportunity_fields_def extract_keywords_no_texts)

end
